theory Spec2Isabelle
  imports Main
begin

section \<open>Data model\<close>

text \<open>
  A Python \<open>str\<close> is a sequence of Unicode code points and \<open>len\<close> counts code points.
  The diagram is drawn with box-drawing characters outside ASCII, so a string is modelled
  as the list of its code points; \<open>ascii\<close> embeds an ASCII literal.
\<close>

type_synonym ustring = "nat list"

definition ascii :: "string \<Rightarrow> ustring" where
  "ascii s = map of_char s"

text \<open>The characters the script writes, by code point.\<close>

definition SPACE :: nat where "SPACE = 32"    \<comment> \<open>U+0020\<close>
definition NEWLINE :: nat where "NEWLINE = 10"    \<comment> \<open>U+000A\<close>
definition BOX_H :: nat where "BOX_H = 9472"    \<comment> \<open>U+2500, horizontal\<close>
definition BOX_V :: nat where "BOX_V = 9474"    \<comment> \<open>U+2502, vertical\<close>
definition BOX_DR :: nat where "BOX_DR = 9484"    \<comment> \<open>U+250C, top left corner\<close>
definition BOX_DL :: nat where "BOX_DL = 9488"    \<comment> \<open>U+2510, top right corner\<close>
definition BOX_UR :: nat where "BOX_UR = 9492"    \<comment> \<open>U+2514, bottom left corner\<close>
definition BOX_UL :: nat where "BOX_UL = 9496"    \<comment> \<open>U+2518, bottom right corner\<close>
definition BOX_VR :: nat where "BOX_VR = 9500"    \<comment> \<open>U+251C, left tee\<close>
definition BOX_VL :: nat where "BOX_VL = 9508"    \<comment> \<open>U+2524, right tee\<close>
definition BOX_DH :: nat where "BOX_DH = 9516"    \<comment> \<open>U+252C, top tee\<close>

text \<open>
  A field of the JSON document: \<open>name\<close> and \<open>bits\<close> are read with \<open>field['name']\<close> and
  \<open>field['bits']\<close> (required keys), \<open>description\<close> with \<open>field.get('description')\<close>
  (optional). \<open>bits\<close> is a Python integer.
\<close>

record field =
  name :: ustring
  bits :: int
  description :: "ustring option"

text \<open>
  The protocol document: \<open>fields\<close> is required, the other keys are tested with \<open>in\<close>.
  The protocol's keys \<open>name\<close> and \<open>fields\<close> are called \<open>proto_name\<close> and \<open>proto_fields\<close>
  here: \<open>name\<close> is the field's key, and a record cannot have a component called \<open>fields\<close>.
\<close>

record protocol =
  proto_name :: "ustring option"
  source :: "ustring option"
  total_note :: "ustring option"
  proto_fields :: "field list"

text \<open>The only exception the layout code can raise on a document of this shape.\<close>

datatype error = IndexError

text \<open>An entry of \<open>row_fields\<close>: the field, its start bit and its end bit in the row.\<close>

type_synonym row_entry = "field \<times> int \<times> int"

section \<open>Python list assignment\<close>

text \<open>
  \<open>xs[i] = v\<close>: a negative index counts from the end, and an index outside
  \<open>-len(xs) .. len(xs) - 1\<close> raises IndexError.
\<close>

definition list_set :: "'a list \<Rightarrow> int \<Rightarrow> 'a \<Rightarrow> error + 'a list" where
  "list_set xs i v =
     (let n = int (length xs);
          j = (if i < 0 then i + n else i)
      in if 0 \<le> j \<and> j < n then Inr (xs[nat j := v]) else Inl IndexError)"

text \<open>\<open>field.get('description')\<close> used as a condition: None and the empty string are false.\<close>

definition desc_text :: "field \<Rightarrow> ustring" where
  "desc_text f = (case description f of None \<Rightarrow> [] | Some d \<Rightarrow> d)"

definition truthy_desc :: "field \<Rightarrow> bool" where
  "truthy_desc f = (desc_text f \<noteq> [])"

section \<open>Rendering a wide field\<close>

text \<open>The line \<open>['|'] + [' '] * 63 + ['|']\<close> (with the box-drawing vertical bar).\<close>

definition blank_line :: ustring where
  "blank_line = [BOX_V] @ replicate 63 SPACE @ [BOX_V]"

text \<open>
  The loop \<open>for i, ch in enumerate(label): pos = left_pad + i + 1; if pos < 64: line[pos] = ch\<close>
  of \<open>_render_wide_field\<close>, from index \<open>i\<close> on.
\<close>

fun write_wide :: "ustring \<Rightarrow> int \<Rightarrow> int \<Rightarrow> ustring \<Rightarrow> error + ustring" where
  "write_wide line left_pad i [] = Inr line"
| "write_wide line left_pad i (ch # rest) =
     (let pos = left_pad + i + 1
      in if pos < 64
         then (case list_set line pos ch of
                 Inl e \<Rightarrow> Inl e
               | Inr line' \<Rightarrow> write_wide line' left_pad (i + 1) rest)
         else write_wide line left_pad (i + 1) rest)"

text \<open>\<open>left_pad = (63 - len(label)) // 2\<close>; Python's \<open>//\<close> is floor division, as \<open>div\<close> on int.\<close>

definition wide_left_pad :: "ustring \<Rightarrow> int" where
  "wide_left_pad label = (63 - int (length label)) div 2"

definition wide_border :: "bool \<Rightarrow> ustring" where
  "wide_border is_first =
     (if is_first then [BOX_DR] @ replicate 63 BOX_H @ [BOX_DL]
      else [BOX_VR] @ replicate 63 BOX_H @ [BOX_VL])"

definition render_wide_field :: "field \<Rightarrow> bool \<Rightarrow> error + ustring list" where
  "render_wide_field f is_first =
     (let lines0 = [wide_border is_first]
      in case write_wide blank_line (wide_left_pad (name f)) 0 (name f) of
           Inl e \<Rightarrow> Inl e
         | Inr name_line \<Rightarrow>
             (let lines1 = lines0 @ [name_line]
              in if truthy_desc f
                 then (case write_wide blank_line (wide_left_pad (desc_text f)) 0 (desc_text f) of
                         Inl e \<Rightarrow> Inl e
                       | Inr desc_line \<Rightarrow> Inr (lines1 @ [desc_line]))
                 else Inr lines1))"

section \<open>Rendering a normal row\<close>

text \<open>The character columns of a field occupying bits \<open>start .. end\<close>.\<close>

definition char_start :: "int \<Rightarrow> int" where
  "char_start start = start * 2 + 1"

definition char_end :: "int \<Rightarrow> int" where
  "char_end end_bit = end_bit * 2 + 2"

definition span_width :: "int \<Rightarrow> int \<Rightarrow> int" where
  "span_width start end_bit = char_end end_bit - char_start start"

text \<open>\<open>pad = width - len(label); left_pad = pad // 2\<close>.\<close>

definition left_pad :: "int \<Rightarrow> ustring \<Rightarrow> int" where
  "left_pad width label = (width - int (length label)) div 2"

text \<open>
  The loop \<open>for i, ch in enumerate(label): pos = char_start + left_pad + i;
  if pos < char_end and pos < 64: line[pos] = ch\<close> of \<open>_render_row\<close>, from index \<open>i\<close> on.
\<close>

fun write_text :: "ustring \<Rightarrow> int \<Rightarrow> int \<Rightarrow> int \<Rightarrow> int \<Rightarrow> ustring \<Rightarrow> error + ustring" where
  "write_text line cs ce lp i [] = Inr line"
| "write_text line cs ce lp i (ch # rest) =
     (let pos = cs + lp + i
      in if pos < ce \<and> pos < 64
         then (case list_set line pos ch of
                 Inl e \<Rightarrow> Inl e
               | Inr line' \<Rightarrow> write_text line' cs ce lp (i + 1) rest)
         else write_text line cs ce lp (i + 1) rest)"

text \<open>
  The top border: position \<open>i\<close> of the 63 inner characters is a boundary when
  \<open>i = end * 2 + 2\<close> for a field of \<open>row_fields[:-1]\<close>.
\<close>

definition is_boundary :: "row_entry list \<Rightarrow> int \<Rightarrow> bool" where
  "is_boundary row_fields i = (\<exists>(f, s, e) \<in> set (butlast row_fields). i = e * 2 + 2)"

definition row_border :: "row_entry list \<Rightarrow> bool \<Rightarrow> ustring" where
  "row_border row_fields is_first =
     [if is_first then BOX_DR else BOX_VR]
     @ map (\<lambda>i. if is_boundary row_fields i then BOX_DH else BOX_H) [0..62]
     @ [if is_first then BOX_DL else BOX_VL]"

text \<open>One iteration of the name-line loop: write the label, then the separator.\<close>

definition name_field :: "ustring \<Rightarrow> row_entry \<Rightarrow> error + ustring" where
  "name_field name_line entry =
     (case entry of (f, start, end_bit) \<Rightarrow>
        (let cs = char_start start;
             ce = char_end end_bit;
             width = ce - cs;
             label = name f;
             lp = left_pad width label
         in case write_text name_line cs ce lp 0 label of
              Inl e \<Rightarrow> Inl e
            | Inr line1 \<Rightarrow>
                if end_bit < 31 \<and> ce < 64 then list_set line1 ce BOX_V else Inr line1))"

fun name_loop :: "ustring \<Rightarrow> row_entry list \<Rightarrow> error + ustring" where
  "name_loop line [] = Inr line"
| "name_loop line (entry # rest) =
     (case name_field line entry of
        Inl e \<Rightarrow> Inl e
      | Inr line' \<Rightarrow> name_loop line' rest)"

text \<open>One iteration of the description-line loop.\<close>

definition desc_field :: "ustring \<Rightarrow> row_entry \<Rightarrow> error + ustring" where
  "desc_field desc_line entry =
     (case entry of (f, start, end_bit) \<Rightarrow>
        (let desc = desc_text f
         in case (if desc \<noteq> []
                  then (let cs = char_start start;
                            ce = char_end end_bit;
                            width = ce - cs;
                            lp = left_pad width desc
                        in write_text desc_line cs ce lp 0 desc)
                  else Inr desc_line) of
              Inl e \<Rightarrow> Inl e
            | Inr line1 \<Rightarrow>
                if end_bit < 31
                then (let sep_pos = end_bit * 2 + 3
                      in if sep_pos < 64 then list_set line1 sep_pos BOX_V else Inr line1)
                else Inr line1))"

fun desc_loop :: "ustring \<Rightarrow> row_entry list \<Rightarrow> error + ustring" where
  "desc_loop line [] = Inr line"
| "desc_loop line (entry # rest) =
     (case desc_field line entry of
        Inl e \<Rightarrow> Inl e
      | Inr line' \<Rightarrow> desc_loop line' rest)"

definition has_desc :: "row_entry list \<Rightarrow> bool" where
  "has_desc row_fields = (\<exists>(f, s, e) \<in> set row_fields. truthy_desc f)"

definition render_row :: "row_entry list \<Rightarrow> bool \<Rightarrow> error + ustring list" where
  "render_row row_fields is_first =
     (let border = row_border row_fields is_first
      in case name_loop blank_line row_fields of
           Inl e \<Rightarrow> Inl e
         | Inr name_line \<Rightarrow>
             (let lines0 = [border, name_line]
              in if has_desc row_fields
                 then (case desc_loop blank_line row_fields of
                         Inl e \<Rightarrow> Inl e
                       | Inr desc_line \<Rightarrow> Inr (lines0 @ [desc_line]))
                 else Inr lines0))"

section \<open>The main loop of generate_diagram\<close>

record gd_state =
  lines :: "ustring list"
  bit_pos :: int
  row_fields :: "row_entry list"
  first_row :: bool

text \<open>
  \<open>if row_fields: lines.extend(_render_row(row_fields, is_first=first_row));
  first_row = False; row_fields = []\<close>
\<close>

definition flush_row :: "gd_state \<Rightarrow> error + gd_state" where
  "flush_row st =
     (if row_fields st \<noteq> []
      then (case render_row (row_fields st) (first_row st) of
              Inl e \<Rightarrow> Inl e
            | Inr ls \<Rightarrow> Inr (st\<lparr>lines := lines st @ ls, first_row := False, row_fields := []\<rparr>))
      else Inr st)"

text \<open>\<open>bit_pos = ((bit_pos + 31) // 32) * 32\<close>\<close>

definition align32 :: "int \<Rightarrow> int" where
  "align32 pos = ((pos + 31) div 32) * 32"

text \<open>The body of \<open>for field in fields\<close>.\<close>

definition gd_step :: "gd_state \<Rightarrow> field \<Rightarrow> error + gd_state" where
  "gd_step st f =
     (let field_bits = bits f;
          start_bit = bit_pos st mod 32
      in if field_bits > 32
         then (case flush_row st of
                 Inl e \<Rightarrow> Inl e
               | Inr st1 \<Rightarrow>
                   (let st2 = (if start_bit \<noteq> 0 then st1\<lparr>bit_pos := align32 (bit_pos st1)\<rparr> else st1)
                    in case render_wide_field f (first_row st2) of
                         Inl e \<Rightarrow> Inl e
                       | Inr ls \<Rightarrow>
                           Inr (st2\<lparr>lines := lines st2 @ ls, first_row := False,
                                    bit_pos := bit_pos st2 + field_bits\<rparr>)))
         else (case (if start_bit + field_bits > 32
                     then (case flush_row st of
                             Inl e \<Rightarrow> Inl e
                           | Inr st1 \<Rightarrow> Inr (st1\<lparr>bit_pos := align32 (bit_pos st1)\<rparr>, 0))
                     else Inr (st, start_bit)) of
                 Inl e \<Rightarrow> Inl e
               | Inr (st2, start_bit') \<Rightarrow>
                   (let end_bit = start_bit' + field_bits - 1;
                        st3 = st2\<lparr>row_fields := row_fields st2 @ [(f, start_bit', end_bit)],
                                  bit_pos := bit_pos st2 + field_bits\<rparr>
                    in if bit_pos st3 mod 32 = 0
                       then (case render_row (row_fields st3) (first_row st3) of
                               Inl e \<Rightarrow> Inl e
                             | Inr ls \<Rightarrow>
                                 Inr (st3\<lparr>lines := lines st3 @ ls, first_row := False,
                                          row_fields := []\<rparr>))
                       else Inr st3)))"

fun gd_loop :: "gd_state \<Rightarrow> field list \<Rightarrow> error + gd_state" where
  "gd_loop st [] = Inr st"
| "gd_loop st (f # fs) =
     (case gd_step st f of
        Inl e \<Rightarrow> Inl e
      | Inr st' \<Rightarrow> gd_loop st' fs)"

section \<open>generate_diagram\<close>

definition ruler1 :: ustring where
  "ruler1 = ascii '' 0                   1                   2                   3''"

definition ruler2 :: ustring where
  "ruler2 = ascii '' 0 1 2 3 4 5 6 7 8 9 0 1 2 3 4 5 6 7 8 9 0 1 2 3 4 5 6 7 8 9 0 1''"

definition bottom_border :: ustring where
  "bottom_border = [BOX_UR] @ replicate 63 BOX_H @ [BOX_UL]"

text \<open>The title lines: the name, followed by the source in parentheses, and an empty line.\<close>

definition title_lines :: "protocol \<Rightarrow> ustring list" where
  "title_lines p =
     (case proto_name p of
        None \<Rightarrow> []
      | Some n \<Rightarrow>
          [case source p of None \<Rightarrow> n | Some src \<Rightarrow> n @ ascii '' ('' @ src @ ascii '')'', []])"

definition note_lines :: "protocol \<Rightarrow> ustring list" where
  "note_lines p = (case total_note p of None \<Rightarrow> [] | Some t \<Rightarrow> [[], t])"

text \<open>The list \<open>lines\<close> at the \<open>return\<close> of \<open>generate_diagram\<close>.\<close>

definition generate_lines :: "protocol \<Rightarrow> error + ustring list" where
  "generate_lines p =
     (let st0 = \<lparr>lines = title_lines p @ [ruler1, ruler2], bit_pos = 0,
                 row_fields = [], first_row = True\<rparr>
      in case gd_loop st0 (proto_fields p) of
           Inl e \<Rightarrow> Inl e
         | Inr st1 \<Rightarrow>
             (case flush_row st1 of
                Inl e \<Rightarrow> Inl e
              | Inr st2 \<Rightarrow> Inr (lines st2 @ [bottom_border] @ note_lines p)))"

text \<open>\<open>'\n'.join(lines)\<close>\<close>

fun join_lines :: "ustring list \<Rightarrow> ustring" where
  "join_lines [] = []"
| "join_lines [l] = l"
| "join_lines (l # ls) = l @ [NEWLINE] @ join_lines ls"

definition generate_diagram :: "protocol \<Rightarrow> error + ustring" where
  "generate_diagram p =
     (case generate_lines p of
        Inl e \<Rightarrow> Inl e
      | Inr ls \<Rightarrow> Inr (join_lines ls))"

section \<open>The row packer\<close>

text \<open>
  What the loop emits, in order: a row group handed to \<open>_render_row\<close>, or a wide field
  handed to \<open>_render_wide_field\<close>.
\<close>

datatype block = RowGroup "row_entry list" | WideBlock field

text \<open>
  The loop body with every \<open>lines.extend(...)\<close> replaced by the block it renders: from the
  bit cursor and the pending row, the blocks emitted by this iteration, the new cursor and
  the new pending row.
\<close>

definition pending_blocks :: "row_entry list \<Rightarrow> block list" where
  "pending_blocks row = (if row \<noteq> [] then [RowGroup row] else [])"

definition pack_step :: "int \<Rightarrow> row_entry list \<Rightarrow> field \<Rightarrow> block list \<times> int \<times> row_entry list" where
  "pack_step pos row f =
     (let field_bits = bits f;
          start_bit = pos mod 32
      in if field_bits > 32
         then (let pos1 = (if start_bit \<noteq> 0 then align32 pos else pos)
               in (pending_blocks row @ [WideBlock f], pos1 + field_bits, []))
         else (case (if start_bit + field_bits > 32
                     then (pending_blocks row, [], align32 pos, 0)
                     else ([], row, pos, start_bit)) of
                 (emitted, row1, pos1, start_bit') \<Rightarrow>
                   (let end_bit = start_bit' + field_bits - 1;
                        row2 = row1 @ [(f, start_bit', end_bit)];
                        pos2 = pos1 + field_bits
                    in if pos2 mod 32 = 0
                       then (emitted @ [RowGroup row2], pos2, [])
                       else (emitted, pos2, row2))))"

text \<open>The whole loop and the final flush of a pending row.\<close>

fun pack_loop :: "int \<Rightarrow> row_entry list \<Rightarrow> field list \<Rightarrow> block list" where
  "pack_loop pos row [] = pending_blocks row"
| "pack_loop pos row (f # fs) =
     (case pack_step pos row f of
        (emitted, pos', row') \<Rightarrow> emitted @ pack_loop pos' row' fs)"

definition pack :: "field list \<Rightarrow> block list" where
  "pack fs = pack_loop 0 [] fs"

text \<open>The bit cursor after the fields \<open>fs\<close>.\<close>

fun cursor_after :: "int \<Rightarrow> row_entry list \<Rightarrow> field list \<Rightarrow> int" where
  "cursor_after pos row [] = pos"
| "cursor_after pos row (f # fs) =
     (case pack_step pos row f of
        (emitted, pos', row') \<Rightarrow> cursor_after pos' row' fs)"

text \<open>Rendering the emitted blocks: only the first block of the diagram is the first row.\<close>

definition render_block :: "block \<Rightarrow> bool \<Rightarrow> error + ustring list" where
  "render_block b is_first =
     (case b of
        RowGroup row \<Rightarrow> render_row row is_first
      | WideBlock f \<Rightarrow> render_wide_field f is_first)"

fun render_blocks :: "bool \<Rightarrow> block list \<Rightarrow> error + ustring list" where
  "render_blocks is_first [] = Inr []"
| "render_blocks is_first (b # bs) =
     (case render_block b is_first of
        Inl e \<Rightarrow> Inl e
      | Inr ls \<Rightarrow>
          (case render_blocks False bs of
             Inl e \<Rightarrow> Inl e
           | Inr ls' \<Rightarrow> Inr (ls @ ls')))"

section \<open>Properties of row groups\<close>

text \<open>The start bit and the end bit of an entry.\<close>

definition start_of :: "row_entry \<Rightarrow> int" where
  "start_of x = fst (snd x)"

definition end_of :: "row_entry \<Rightarrow> int" where
  "end_of x = snd (snd x)"

text \<open>Each entry starts at the bit after the end of the entry before it.\<close>

fun contiguous :: "row_entry list \<Rightarrow> bool" where
  "contiguous [] = True"
| "contiguous [x] = True"
| "contiguous ((f, s, e) # (g, s', e') # rest) = (s' = e + 1 \<and> contiguous ((g, s', e') # rest))"

text \<open>An entry lies inside the 32-bit row and covers exactly the bits of its field.\<close>

definition entry_ok :: "row_entry \<Rightarrow> bool" where
  "entry_ok x = (case x of (f, s, e) \<Rightarrow> 0 \<le> s \<and> s \<le> e \<and> e \<le> 31 \<and> e = s + bits f - 1)"

text \<open>The packed bit width of a group: the sum of the bit-widths of its fields.\<close>

definition group_bits :: "row_entry list \<Rightarrow> int" where
  "group_bits row = sum_list (map (\<lambda>(f, s, e). bits f) row)"

definition good_group :: "row_entry list \<Rightarrow> bool" where
  "good_group g = (g \<noteq> [] \<and> contiguous g \<and> list_all entry_ok g)"

text \<open>The loop invariant: the pending row is well formed and ends just before the cursor.\<close>

definition row_inv :: "int \<Rightarrow> row_entry list \<Rightarrow> bool" where
  "row_inv pos row = (row = [] \<or> (good_group row \<and> end_of (last row) + 1 = pos mod 32))"

text \<open>The fields a block holds, by kind of block.\<close>

fun narrow_of :: "block \<Rightarrow> field list" where
  "narrow_of (RowGroup g) = map fst g"
| "narrow_of (WideBlock f) = []"

fun wide_of :: "block \<Rightarrow> field list" where
  "wide_of (RowGroup g) = []"
| "wide_of (WideBlock f) = [f]"

definition is_row_group :: "block \<Rightarrow> bool" where
  "is_row_group b = (case b of RowGroup g \<Rightarrow> True | WideBlock f \<Rightarrow> False)"

definition full_group :: "block \<Rightarrow> bool" where
  "full_group b = (case b of RowGroup g \<Rightarrow> group_bits g = 32 | WideBlock f \<Rightarrow> False)"

definition total_bits :: "field list \<Rightarrow> int" where
  "total_bits fs = sum_list (map bits fs)"

text \<open>
  No field straddles a 32-bit boundary when the fields are laid end to end from bit
  \<open>pos\<close>: each one fits in what is left of its row.
\<close>

fun fits_rows :: "int \<Rightarrow> field list \<Rightarrow> bool" where
  "fits_rows pos [] = True"
| "fits_rows pos (f # fs) = (pos mod 32 + bits f \<le> 32 \<and> fits_rows (pos + bits f) fs)"

text \<open>The pending row holds exactly the bits of the current row consumed so far.\<close>

definition full_inv :: "int \<Rightarrow> row_entry list \<Rightarrow> bool" where
  "full_inv pos row = (group_bits row = pos mod 32 \<and> (row = [] \<longleftrightarrow> pos mod 32 = 0))"

section \<open>Example inputs\<close>

text \<open>A field without a description, from an ASCII name and a bit-width.\<close>

definition mk_field :: "string \<Rightarrow> int \<Rightarrow> field" where
  "mk_field n b = \<lparr>name = ascii n, bits = b, description = None\<rparr>"

section \<open>The loop and the packer\<close>

text \<open>The loop of generate_diagram followed by the final flush, as the lines it leaves.\<close>

definition gd_finish :: "gd_state \<Rightarrow> field list \<Rightarrow> error + ustring list" where
  "gd_finish st fs =
     (case gd_loop st fs of
        Inl e \<Rightarrow> Inl e
      | Inr st1 \<Rightarrow> (case flush_row st1 of Inl e \<Rightarrow> Inl e | Inr st2 \<Rightarrow> Inr (lines st2)))"

text \<open>A state after the blocks of one iteration have been rendered and appended.\<close>

definition append_rendered :: "gd_state \<Rightarrow> block list \<times> int \<times> row_entry list \<Rightarrow> error + gd_state" where
  "append_rendered st r =
     (case r of (em, pos', row') \<Rightarrow>
        (case render_blocks (first_row st) em of
           Inl e \<Rightarrow> Inl e
         | Inr ls \<Rightarrow>
             Inr \<lparr>lines = lines st @ ls, bit_pos = pos', row_fields = row',
                  first_row = (first_row st \<and> em = [])\<rparr>))"

section \<open>Centring as the specification words it\<close>

text \<open>
  The specification's wording of the left padding: the difference of span width and text
  length, divided by two with truncating integer division (rounding toward zero). It is
  compared below with \<open>left_pad\<close>, which is the source's \<open>pad // 2\<close>.
\<close>

definition trunc_div :: "int \<Rightarrow> int \<Rightarrow> int" where
  "trunc_div a b = sgn a * sgn b * (\<bar>a\<bar> div \<bar>b\<bar>)"

definition spec_left_pad :: "int \<Rightarrow> nat \<Rightarrow> int" where
  "spec_left_pad width text_length = trunc_div (width - int text_length) 2"

section \<open>Columns written by one iteration\<close>

text \<open>A line with the text \<open>t\<close> written over it from column \<open>n\<close> on.\<close>

definition overwrite_at :: "'a list \<Rightarrow> nat \<Rightarrow> 'a list \<Rightarrow> 'a list" where
  "overwrite_at line n t = take n line @ t @ drop (n + length t) line"

text \<open>
  The label, or the description, is no longer than the character span of its entry. Then its
  left padding is not negative and every character lands inside the span.
\<close>

definition label_fits :: "row_entry \<Rightarrow> bool" where
  "label_fits x = (case x of (f, s, e) \<Rightarrow> int (length (name f)) \<le> span_width s e)"

text \<open>
  The columns the name-line iteration of an entry writes when the label fits: the separator
  column and the columns of the centred label; and the character a column holds afterwards.
\<close>

definition name_writes :: "row_entry \<Rightarrow> nat \<Rightarrow> bool" where
  "name_writes x j =
     (case x of (f, s, e) \<Rightarrow>
        (e < 31 \<and> int j = char_end e)
        \<or> (char_start s + left_pad (span_width s e) (name f) \<le> int j
            \<and> int j < char_start s + left_pad (span_width s e) (name f) + int (length (name f))))"

definition name_cell :: "row_entry \<Rightarrow> nat \<Rightarrow> nat \<Rightarrow> nat" where
  "name_cell x j old =
     (case x of (f, s, e) \<Rightarrow>
        if e < 31 \<and> int j = char_end e then BOX_V
        else if char_start s + left_pad (span_width s e) (name f) \<le> int j
                \<and> int j < char_start s + left_pad (span_width s e) (name f) + int (length (name f))
             then name f ! nat (int j - (char_start s + left_pad (span_width s e) (name f)))
             else old)"



section \<open>The packer: invariants of the loop\<close>

lemma contiguous_snoc:
  "contiguous (row @ [(f, s, e)]) = (contiguous row \<and> (row \<noteq> [] \<longrightarrow> s = end_of (last row) + 1))"
  by (induction row rule: contiguous.induct) (auto simp: end_of_def)

lemma align32_mod: "align32 pos mod 32 = 0"
  by (simp add: align32_def)

lemma align32_add_mod: "(align32 pos + b) mod 32 = b mod 32"
  by (simp add: align32_def)

lemma pack_step_wide:
  "32 < bits f \<Longrightarrow> pack_step pos row f =
     (pending_blocks row @ [WideBlock f], (if pos mod 32 \<noteq> 0 then align32 pos else pos) + bits f, [])"
  by (simp add: pack_step_def Let_def)

lemma pack_step_overflow:
  "bits f \<le> 32 \<Longrightarrow> 32 < pos mod 32 + bits f \<Longrightarrow> pack_step pos row f =
     (if (align32 pos + bits f) mod 32 = 0
      then (pending_blocks row @ [RowGroup [(f, 0, bits f - 1)]], align32 pos + bits f, [])
      else (pending_blocks row, align32 pos + bits f, [(f, 0, bits f - 1)]))"
  by (simp add: pack_step_def Let_def)

lemma pack_step_fits:
  "bits f \<le> 32 \<Longrightarrow> pos mod 32 + bits f \<le> 32 \<Longrightarrow> pack_step pos row f =
     (if (pos + bits f) mod 32 = 0
      then ([RowGroup (row @ [(f, pos mod 32, pos mod 32 + bits f - 1)])], pos + bits f, [])
      else ([], pos + bits f, row @ [(f, pos mod 32, pos mod 32 + bits f - 1)]))"
  by (simp add: pack_step_def Let_def)

lemma good_group_single: "1 \<le> bits f \<Longrightarrow> bits f \<le> 32 \<Longrightarrow> good_group [(f, 0, bits f - 1)]"
  by (simp add: good_group_def entry_ok_def)

lemma good_group_snoc:
  assumes "row_inv pos row" and "1 \<le> bits f" and "pos mod 32 + bits f \<le> 32"
  shows "good_group (row @ [(f, pos mod 32, pos mod 32 + bits f - 1)])"
  using assms
  by (auto simp: row_inv_def good_group_def contiguous_snoc entry_ok_def)

lemma pack_step_inv:
  assumes inv: "row_inv pos row" and pos: "1 \<le> bits f" and step: "pack_step pos row f = (em, pos', row')"
  shows "row_inv pos' row' \<and> (\<forall>g. RowGroup g \<in> set em \<longrightarrow> good_group g)"
proof -
  have pend: "\<And>g. RowGroup g \<in> set (pending_blocks row) \<Longrightarrow> good_group g"
    using inv by (auto simp: pending_blocks_def row_inv_def split: if_splits)
  consider (wide) "32 < bits f"
    | (overflow) "bits f \<le> 32" "32 < pos mod 32 + bits f"
    | (fits) "bits f \<le> 32" "pos mod 32 + bits f \<le> 32"
    by linarith
  then show ?thesis
  proof cases
    case wide
    with step pend show ?thesis
      by (auto simp: pack_step_wide row_inv_def)
  next
    case overflow
    have single: "good_group [(f, 0, bits f - 1)]"
      using pos overflow(1) by (rule good_group_single)
    have m: "(align32 pos + bits f) mod 32 \<noteq> 0 \<Longrightarrow> (align32 pos + bits f) mod 32 = bits f"
      using pos overflow(1) by (cases "bits f = 32") (simp_all add: align32_add_mod align32_mod)
    show ?thesis
      using step pend single m overflow
      by (auto simp: pack_step_overflow row_inv_def end_of_def split: if_splits)
  next
    case fits
    have snoc: "good_group (row @ [(f, pos mod 32, pos mod 32 + bits f - 1)])"
      using inv pos fits(2) by (rule good_group_snoc)
    have "(pos + bits f) mod 32 = (pos mod 32 + bits f) mod 32"
      by (simp add: mod_add_left_eq)
    then have m: "(pos + bits f) mod 32 \<noteq> 0 \<Longrightarrow> (pos + bits f) mod 32 = pos mod 32 + bits f"
      using pos fits(2) by (cases "pos mod 32 + bits f = 32") auto
    show ?thesis
      using step snoc m fits
      by (auto simp: pack_step_fits row_inv_def end_of_def split: if_splits)
  qed
qed

lemma pack_loop_good:
  "row_inv pos row \<Longrightarrow> \<forall>f \<in> set fs. 1 \<le> bits f \<Longrightarrow> RowGroup g \<in> set (pack_loop pos row fs) \<Longrightarrow> good_group g"
proof (induction fs arbitrary: pos row)
  case Nil
  then show ?case
    by (auto simp: pending_blocks_def row_inv_def split: if_splits)
next
  case (Cons f fs)
  obtain em pos' row' where step: "pack_step pos row f = (em, pos', row')"
    by (cases "pack_step pos row f") auto
  from Cons.prems have "1 \<le> bits f" by simp
  with Cons.prems(1) step have inv': "row_inv pos' row'" and em: "\<forall>g. RowGroup g \<in> set em \<longrightarrow> good_group g"
    using pack_step_inv by blast+
  from Cons.prems(3) step have "RowGroup g \<in> set em \<or> RowGroup g \<in> set (pack_loop pos' row' fs)"
    by simp
  then show ?case
  proof
    assume "RowGroup g \<in> set em"
    with em show ?thesis by blast
  next
    assume "RowGroup g \<in> set (pack_loop pos' row' fs)"
    with Cons.IH [OF inv'] Cons.prems(2) show ?thesis by simp
  qed
qed


lemma pack_step_cases:
  obtains (wide) "32 < bits f"
      "pack_step pos row f =
         (pending_blocks row @ [WideBlock f], (if pos mod 32 \<noteq> 0 then align32 pos else pos) + bits f, [])"
  | (overflow_full) "bits f \<le> 32" "32 < pos mod 32 + bits f" "(align32 pos + bits f) mod 32 = 0"
      "pack_step pos row f = (pending_blocks row @ [RowGroup [(f, 0, bits f - 1)]], align32 pos + bits f, [])"
  | (overflow_part) "bits f \<le> 32" "32 < pos mod 32 + bits f" "(align32 pos + bits f) mod 32 \<noteq> 0"
      "pack_step pos row f = (pending_blocks row, align32 pos + bits f, [(f, 0, bits f - 1)])"
  | (fits_full) "bits f \<le> 32" "pos mod 32 + bits f \<le> 32" "(pos + bits f) mod 32 = 0"
      "pack_step pos row f = ([RowGroup (row @ [(f, pos mod 32, pos mod 32 + bits f - 1)])], pos + bits f, [])"
  | (fits_part) "bits f \<le> 32" "pos mod 32 + bits f \<le> 32" "(pos + bits f) mod 32 \<noteq> 0"
      "pack_step pos row f = ([], pos + bits f, row @ [(f, pos mod 32, pos mod 32 + bits f - 1)])"
proof -
  consider "32 < bits f" | "bits f \<le> 32" "32 < pos mod 32 + bits f" | "bits f \<le> 32" "pos mod 32 + bits f \<le> 32"
    by linarith
  then show ?thesis
  proof cases
    case 1
    then show ?thesis using wide by (simp add: pack_step_wide)
  next
    case 2
    then show ?thesis using overflow_full overflow_part
      by (cases "(align32 pos + bits f) mod 32 = 0") (simp_all add: pack_step_overflow)
  next
    case 3
    then show ?thesis using fits_full fits_part
      by (cases "(pos + bits f) mod 32 = 0") (simp_all add: pack_step_fits)
  qed
qed

lemma narrow_of_pending: "concat (map narrow_of (pending_blocks row)) = map fst row"
  by (simp add: pending_blocks_def)

lemma wide_of_pending: "concat (map wide_of (pending_blocks row)) = []"
  by (simp add: pending_blocks_def)

lemma pack_loop_narrow:
  "concat (map narrow_of (pack_loop pos row fs)) = map fst row @ filter (\<lambda>f. bits f \<le> 32) fs"
proof (induction fs arbitrary: pos row)
  case Nil
  show ?case by (simp add: narrow_of_pending)
next
  case (Cons f fs)
  show ?case
    by (rule pack_step_cases [of f pos row]) (simp_all add: Cons.IH narrow_of_pending)
qed

lemma pack_loop_wide:
  "concat (map wide_of (pack_loop pos row fs)) = filter (\<lambda>f. 32 < bits f) fs"
proof (induction fs arbitrary: pos row)
  case Nil
  show ?case by (simp add: wide_of_pending)
next
  case (Cons f fs)
  show ?case
    by (rule pack_step_cases [of f pos row]) (simp_all add: Cons.IH wide_of_pending)
qed

lemma group_bits_snoc: "group_bits (row @ [(f, s, e)]) = group_bits row + bits f"
  by (simp add: group_bits_def)

lemma group_bits_span:
  "good_group g \<Longrightarrow> group_bits g = end_of (last g) - start_of (hd g) + 1"
proof (induction g rule: contiguous.induct)
  case 1
  then show ?case by (simp add: good_group_def)
next
  case (2 x)
  then show ?case
    by (cases x) (simp add: good_group_def group_bits_def entry_ok_def end_of_def start_of_def)
next
  case (3 f s e g s' e' rest)
  from "3.prems" have "good_group ((g, s', e') # rest)"
    by (auto simp: good_group_def)
  from "3.IH" [OF this] "3.prems" show ?case
    by (simp add: good_group_def group_bits_def entry_ok_def end_of_def start_of_def)
qed

lemma good_group_bounds:
  assumes "good_group g"
  shows "0 \<le> start_of (hd g)" and "end_of (last g) \<le> 31"
proof -
  from assms have ne: "g \<noteq> []" and all: "list_all entry_ok g"
    by (simp_all add: good_group_def)
  from ne all have "entry_ok (hd g)" and "entry_ok (last g)"
    by (simp_all add: list_all_iff)
  then show "0 \<le> start_of (hd g)" and "end_of (last g) \<le> 31"
    by (auto simp: entry_ok_def start_of_def end_of_def split: prod.splits)
qed

lemma good_group_bits_le: "good_group g \<Longrightarrow> group_bits g \<le> 32"
  using group_bits_span [of g] good_group_bounds [of g] by linarith

lemma good_group_sorted:
  "good_group g \<Longrightarrow> sorted_wrt (\<lambda>x y. end_of x < start_of y) g"
proof (induction g rule: contiguous.induct)
  case 1
  then show ?case by simp
next
  case (2 x)
  then show ?case by simp
next
  case (3 f s e g s' e' rest)
  from "3.prems" have gg: "good_group ((g, s', e') # rest)" and s': "s' = e + 1"
    by (auto simp: good_group_def)
  from "3.IH" [OF gg] have srt: "sorted_wrt (\<lambda>x y. end_of x < start_of y) ((g, s', e') # rest)" .
  from gg have "s' \<le> e'" by (simp add: good_group_def entry_ok_def)
  with srt s' have "\<forall>y \<in> set ((g, s', e') # rest). e < start_of y"
    by (auto simp: end_of_def start_of_def)
  with srt show ?case by (simp add: end_of_def)
qed

lemma total_bits_Cons: "total_bits (f # fs) = bits f + total_bits fs"
  by (simp add: total_bits_def)

lemma total_bits_nonneg: "\<forall>f \<in> set fs. 1 \<le> bits f \<Longrightarrow> 0 \<le> total_bits fs"
  by (induction fs) (auto simp: total_bits_Cons total_bits_def)

lemma mod32_step:
  assumes "1 \<le> (b::int)" and "pos mod 32 + b \<le> 32"
  shows "(pos + b) mod 32 = 0 \<longleftrightarrow> pos mod 32 + b = 32"
    and "(pos + b) mod 32 \<noteq> 0 \<Longrightarrow> (pos + b) mod 32 = pos mod 32 + b"
proof -
  have m0: "0 \<le> pos mod 32" by simp
  have modsum: "(pos + b) mod 32 = (pos mod 32 + b) mod 32"
    by (simp add: mod_add_left_eq)
  show "(pos + b) mod 32 = 0 \<longleftrightarrow> pos mod 32 + b = 32"
  proof (cases "pos mod 32 + b = 32")
    case True
    then show ?thesis using modsum by simp
  next
    case False
    with assms m0 have "0 < pos mod 32 + b" "pos mod 32 + b < 32" by linarith+
    then have "(pos mod 32 + b) mod 32 = pos mod 32 + b" by simp
    with modsum False assms m0 show ?thesis by linarith
  qed
  then show "(pos + b) mod 32 \<noteq> 0 \<Longrightarrow> (pos + b) mod 32 = pos mod 32 + b"
    using modsum assms m0 by (cases "pos mod 32 + b = 32") simp_all
qed

lemma pack_loop_full:
  assumes "full_inv pos row" and "\<forall>f \<in> set fs. 1 \<le> bits f" and "fits_rows pos fs"
  shows "length (pack_loop pos row fs) = nat ((pos mod 32 + total_bits fs + 31) div 32)
       \<and> list_all is_row_group (pack_loop pos row fs)
       \<and> list_all full_group (butlast (pack_loop pos row fs))
       \<and> ((pos + total_bits fs) mod 32 = 0 \<longrightarrow> list_all full_group (pack_loop pos row fs))"
  using assms
proof (induction fs arbitrary: pos row)
  case Nil
  show ?case
  proof (cases "row = []")
    case True
    with Nil have "pos mod 32 = 0" by (simp add: full_inv_def)
    with True show ?thesis by (simp add: pending_blocks_def total_bits_def)
  next
    case False
    with Nil have ne: "pos mod 32 \<noteq> 0" by (simp add: full_inv_def)
    have "0 \<le> pos mod 32" "pos mod 32 < 32" by simp_all
    with ne have "(pos mod 32 + 31) div 32 = 1" by linarith
    with False ne show ?thesis
      by (simp add: pending_blocks_def total_bits_def is_row_group_def)
  qed
next
  case (Cons f fs)
  from Cons.prems have b1: "1 \<le> bits f" and fit: "pos mod 32 + bits f \<le> 32"
    and rest: "\<forall>f \<in> set fs. 1 \<le> bits f" "fits_rows (pos + bits f) fs"
    by simp_all
  have m0: "0 \<le> pos mod 32" by simp
  from fit m0 have b32: "bits f \<le> 32" by linarith
  let ?row2 = "row @ [(f, pos mod 32, pos mod 32 + bits f - 1)]"
  have gb: "group_bits ?row2 = pos mod 32 + bits f"
    using Cons.prems(1) by (simp add: group_bits_snoc full_inv_def)
  have modtot: "pos + total_bits (f # fs) = pos + bits f + total_bits fs"
    by (simp add: total_bits_Cons)
  show ?case
  proof (cases "(pos + bits f) mod 32 = 0")
    case True
    with mod32_step(1) [OF b1 fit] have eq32: "pos mod 32 + bits f = 32" by simp
    have step: "pack_loop pos row (f # fs) = RowGroup ?row2 # pack_loop (pos + bits f) [] fs"
      using b32 fit True by (simp add: pack_step_fits)
    have inv': "full_inv (pos + bits f) []"
      using True by (simp add: full_inv_def group_bits_def)
    note ih = Cons.IH [OF inv' rest]
    have fg: "full_group (RowGroup ?row2)"
      using gb eq32 by (simp add: full_group_def)
    have rg: "is_row_group (RowGroup ?row2)"
      by (simp add: is_row_group_def)
    have tb: "0 \<le> total_bits fs"
      using rest(1) by (rule total_bits_nonneg)
    have len: "nat ((pos mod 32 + total_bits (f # fs) + 31) div 32) = Suc (nat ((total_bits fs + 31) div 32))"
    proof -
      have "pos mod 32 + total_bits (f # fs) + 31 = (total_bits fs + 31) + 1 * 32"
        using eq32 by (simp add: total_bits_Cons)
      then have "(pos mod 32 + total_bits (f # fs) + 31) div 32 = (total_bits fs + 31) div 32 + 1"
        by simp
      moreover have "0 \<le> (total_bits fs + 31) div 32" using tb by simp
      ultimately show ?thesis by simp
    qed
    have c1: "length (pack_loop pos row (f # fs)) = nat ((pos mod 32 + total_bits (f # fs) + 31) div 32)"
      unfolding step len using ih True by simp
    have c2: "list_all is_row_group (pack_loop pos row (f # fs))"
      unfolding step using ih rg by simp
    have c3: "list_all full_group (butlast (pack_loop pos row (f # fs)))"
      unfolding step using ih fg by simp
    have c4: "(pos + total_bits (f # fs)) mod 32 = 0 \<longrightarrow> list_all full_group (pack_loop pos row (f # fs))"
      unfolding step modtot using ih fg by simp
    from c1 c2 c3 c4 show ?thesis by blast
  next
    case False
    with mod32_step(2) [OF b1 fit] have lt32: "(pos + bits f) mod 32 = pos mod 32 + bits f" by simp
    have step: "pack_loop pos row (f # fs) = pack_loop (pos + bits f) ?row2 fs"
      using b32 fit False by (simp add: pack_step_fits)
    have inv': "full_inv (pos + bits f) ?row2"
      using False gb lt32 by (simp add: full_inv_def)
    note ih = Cons.IH [OF inv' rest]
    have "pos mod 32 + total_bits (f # fs) + 31 = (pos + bits f) mod 32 + total_bits fs + 31"
      using lt32 by (simp add: total_bits_Cons)
    with ih show ?thesis
      unfolding step modtot by simp
  qed
qed

lemma mk_field_sel [simp]:
  "name (mk_field n b) = ascii n" "bits (mk_field n b) = b" "description (mk_field n b) = None"
  by (simp_all add: mk_field_def)

lemma align32_bounds: "pos \<le> align32 pos \<and> align32 pos < pos + 32"
  unfolding align32_def by linarith

lemma pack_loop_narrow_member:
  assumes "RowGroup g \<in> set (pack_loop pos row fs)" and "x \<in> set g"
  shows "fst x \<in> set (map fst row) \<or> (fst x \<in> set fs \<and> bits (fst x) \<le> 32)"
proof -
  from assms have "fst x \<in> set (concat (map narrow_of (pack_loop pos row fs)))"
    by force
  then show ?thesis
    by (auto simp: pack_loop_narrow)
qed

section \<open>Claims about the row packer\<close>

text \<open>
  Claim C1, amended. When every field has a positive bit-width and no field straddles a
  32-bit boundary (each field fits in what is left of its row when the fields are laid end to
  end), the packer emits exactly \<open>ceil(total_bits / 32)\<close> blocks, all of them row groups; every
  group but possibly the last sums to exactly 32 bits, and when the total is a multiple of 32
  the last one does too.
\<close>

theorem pack_full_rows:
  assumes "\<forall>f \<in> set fs. 1 \<le> bits f" and "fits_rows 0 fs"
  shows "int (length (pack fs)) = (total_bits fs + 31) div 32
       \<and> list_all is_row_group (pack fs)
       \<and> list_all full_group (butlast (pack fs))
       \<and> (total_bits fs mod 32 = 0 \<longrightarrow> list_all full_group (pack fs))"
proof -
  have inv: "full_inv 0 []"
    by (simp add: full_inv_def group_bits_def)
  have nn: "0 \<le> (total_bits fs + 31) div 32"
    using total_bits_nonneg [OF assms(1)] by simp
  from pack_loop_full [OF inv assms] nn show ?thesis
    by (simp add: pack_def)
qed

theorem pack_full_rows_witness:
  "fits_rows 0 [mk_field ''Version'' 4, mk_field ''Type'' 4, mk_field ''Length'' 24, mk_field ''Id'' 32]
   \<and> length (pack [mk_field ''Version'' 4, mk_field ''Type'' 4, mk_field ''Length'' 24, mk_field ''Id'' 32]) = 2
   \<and> total_bits [mk_field ''Version'' 4, mk_field ''Type'' 4, mk_field ''Length'' 24, mk_field ''Id'' 32] = 64
   \<and> list_all full_group (pack [mk_field ''Version'' 4, mk_field ''Type'' 4, mk_field ''Length'' 24, mk_field ''Id'' 32])"
proof -
  let ?fs = "[mk_field ''Version'' 4, mk_field ''Type'' 4, mk_field ''Length'' 24, mk_field ''Id'' 32]"
  have h1: "\<forall>f \<in> set ?fs. 1 \<le> bits f"
    by (simp add: mk_field_def)
  have h2: "fits_rows 0 ?fs"
    by (simp add: mk_field_def)
  have t: "total_bits ?fs = 64"
    by (simp add: total_bits_def mk_field_def)
  from pack_full_rows [OF h1 h2] h2 t show ?thesis
    by simp
qed

text \<open>
  Claim C1 as stated fails: the fields of 24, 16 and 24 bits are all at most 32 bits wide and
  sum to 64, but the packer closes two rows early and emits three row groups, none of which
  sums to 32.
\<close>

theorem pack_row_count_counterexample:
  "bits (mk_field ''A'' 24) \<le> 32 \<and> bits (mk_field ''B'' 16) \<le> 32 \<and> bits (mk_field ''C'' 24) \<le> 32
   \<and> total_bits [mk_field ''A'' 24, mk_field ''B'' 16, mk_field ''C'' 24] = 2 * 32
   \<and> pack [mk_field ''A'' 24, mk_field ''B'' 16, mk_field ''C'' 24] =
       [RowGroup [(mk_field ''A'' 24, 0, 23)], RowGroup [(mk_field ''B'' 16, 0, 15)],
        RowGroup [(mk_field ''C'' 24, 0, 23)]]
   \<and> length (pack [mk_field ''A'' 24, mk_field ''B'' 16, mk_field ''C'' 24]) = 3
   \<and> group_bits [(mk_field ''A'' 24, 0, 23)] = 24"
  by (simp add: pack_def pack_step_def pending_blocks_def align32_def total_bits_def group_bits_def mk_field_def)

text \<open>
  Claim C2, amended. A field wider than 32 bits is never an entry of a row group, and the wide
  blocks emitted are exactly the wide fields, in order. At a wide field the packer flushes the
  pending row, aligns the cursor up to the next 32-bit boundary before the block, emits the
  dedicated block and advances the cursor by the field's bit-width; the cursor is not aligned
  again after the block, so it is then congruent to the field's bit-width modulo 32.
\<close>

theorem wide_field_dedicated_block:
  "(RowGroup g \<in> set (pack fs) \<and> x \<in> set g \<longrightarrow> bits (fst x) \<le> 32)
   \<and> concat (map wide_of (pack fs)) = filter (\<lambda>f. 32 < bits f) fs
   \<and> (32 < bits f \<longrightarrow>
        pack_step pos row f =
          (pending_blocks row @ [WideBlock f],
           (if pos mod 32 \<noteq> 0 then align32 pos else pos) + bits f, [])
        \<and> (if pos mod 32 \<noteq> 0 then align32 pos else pos) mod 32 = 0
        \<and> pos \<le> align32 pos \<and> align32 pos < pos + 32
        \<and> ((if pos mod 32 \<noteq> 0 then align32 pos else pos) + bits f) mod 32 = bits f mod 32)"
proof -
  have a: "RowGroup g \<in> set (pack fs) \<and> x \<in> set g \<longrightarrow> bits (fst x) \<le> 32"
    using pack_loop_narrow_member [of g 0 "[]" fs x] by (auto simp: pack_def)
  have b: "concat (map wide_of (pack fs)) = filter (\<lambda>f. 32 < bits f) fs"
    by (simp add: pack_def pack_loop_wide)
  have c: "(if pos mod 32 \<noteq> 0 then align32 pos else pos) mod 32 = 0"
    by (simp add: align32_mod)
  have d: "((if pos mod 32 \<noteq> 0 then align32 pos else pos) + bits f) mod 32 = bits f mod 32"
    using c mod_add_left_eq [of "if pos mod 32 \<noteq> 0 then align32 pos else pos" 32 "bits f"]
    by simp
  from a b c d align32_bounds [of pos] show ?thesis
    by (simp add: pack_step_wide)
qed

theorem wide_field_dedicated_block_witness:
  "pack [mk_field ''Flags'' 8, mk_field ''Payload'' 48, mk_field ''Crc'' 8] =
     [RowGroup [(mk_field ''Flags'' 8, 0, 7)], WideBlock (mk_field ''Payload'' 48),
      RowGroup [(mk_field ''Crc'' 8, 16, 23)]]
   \<and> bits (mk_field ''Crc'' 8) \<le> 32
   \<and> pack_step 8 [(mk_field ''Flags'' 8, 0, 7)] (mk_field ''Payload'' 48) =
       ([RowGroup [(mk_field ''Flags'' 8, 0, 7)], WideBlock (mk_field ''Payload'' 48)], 32 + 48, [])"
proof -
  let ?fs = "[mk_field ''Flags'' 8, mk_field ''Payload'' 48, mk_field ''Crc'' 8]"
  have p: "pack ?fs =
     [RowGroup [(mk_field ''Flags'' 8, 0, 7)], WideBlock (mk_field ''Payload'' 48),
      RowGroup [(mk_field ''Crc'' 8, 16, 23)]]"
    by (simp add: pack_def pack_step_def pending_blocks_def align32_def mk_field_def)
  have w: "32 < bits (mk_field ''Payload'' 48)"
    by (simp add: mk_field_def)
  have m: "RowGroup [(mk_field ''Crc'' 8, 16, 23)] \<in> set (pack ?fs)
           \<and> (mk_field ''Crc'' 8, 16, 23) \<in> set [(mk_field ''Crc'' 8, 16, 23)]"
    by (simp add: p)
  from wide_field_dedicated_block [of "[(mk_field ''Crc'' 8, 16, 23)]" ?fs "(mk_field ''Crc'' 8, 16, 23)"
      "mk_field ''Payload'' 48" 8 "[(mk_field ''Flags'' 8, 0, 7)]"] w m p
  show ?thesis
    by (simp add: pending_blocks_def align32_def)
qed

text \<open>
  Claim C2 as stated fails: after a 48-bit wide field the cursor is 48, which is not on a
  32-bit boundary, and the next field is packed at bits 16 to 23 of its row.
\<close>

theorem cursor_after_wide_counterexample:
  "32 < bits (mk_field ''Payload'' 48)
   \<and> cursor_after 0 [] [mk_field ''Payload'' 48] = 48
   \<and> cursor_after 0 [] [mk_field ''Payload'' 48] mod 32 = 16
   \<and> pack [mk_field ''Payload'' 48, mk_field ''Crc'' 8] =
       [WideBlock (mk_field ''Payload'' 48), RowGroup [(mk_field ''Crc'' 8, 16, 23)]]"
  by (simp add: pack_def pack_step_def pending_blocks_def align32_def mk_field_def)

text \<open>
  Claim C4. For fields of positive bit-width, every row group the packer emits is non-empty,
  its entries are contiguous and do not overlap, each entry lies within bits 0 to 31 and
  covers exactly the bits of its field, the last end bit is at most 31 and the group's bit
  widths sum to at most 32. The fields of at most 32 bits appear in the row groups exactly
  once each, in input order, so none is split across two groups. When a field of at most 32
  bits does not fit in the current row, the pending row is emitted, the cursor is aligned and
  the field starts the next row at bit 0.
\<close>

theorem row_group_invariant:
  assumes "\<forall>f \<in> set fs. 1 \<le> bits f"
  shows "(RowGroup g \<in> set (pack fs) \<longrightarrow>
            g \<noteq> [] \<and> contiguous g \<and> sorted_wrt (\<lambda>x y. end_of x < start_of y) g
            \<and> list_all entry_ok g \<and> end_of (last g) \<le> 31 \<and> group_bits g \<le> 32)
       \<and> concat (map narrow_of (pack fs)) = filter (\<lambda>f. bits f \<le> 32) fs
       \<and> (bits f \<le> 32 \<and> 32 < pos mod 32 + bits f \<longrightarrow>
            pack_step pos row f =
              (if bits f = 32
               then (pending_blocks row @ [RowGroup [(f, 0, bits f - 1)]], align32 pos + bits f, [])
               else (pending_blocks row, align32 pos + bits f, [(f, 0, bits f - 1)])))"
proof -
  have a: "RowGroup g \<in> set (pack fs) \<longrightarrow>
            g \<noteq> [] \<and> contiguous g \<and> sorted_wrt (\<lambda>x y. end_of x < start_of y) g
            \<and> list_all entry_ok g \<and> end_of (last g) \<le> 31 \<and> group_bits g \<le> 32"
  proof
    assume "RowGroup g \<in> set (pack fs)"
    then have "RowGroup g \<in> set (pack_loop 0 [] fs)" by (simp add: pack_def)
    moreover have "row_inv 0 []" by (simp add: row_inv_def)
    ultimately have gg: "good_group g"
      using assms pack_loop_good by blast
    from gg good_group_sorted [OF gg] good_group_bounds(2) [OF gg] good_group_bits_le [OF gg]
    show "g \<noteq> [] \<and> contiguous g \<and> sorted_wrt (\<lambda>x y. end_of x < start_of y) g
            \<and> list_all entry_ok g \<and> end_of (last g) \<le> 31 \<and> group_bits g \<le> 32"
      by (simp add: good_group_def)
  qed
  have b: "concat (map narrow_of (pack fs)) = filter (\<lambda>f. bits f \<le> 32) fs"
    by (simp add: pack_def pack_loop_narrow)
  have c: "bits f \<le> 32 \<and> 32 < pos mod 32 + bits f \<longrightarrow>
            pack_step pos row f =
              (if bits f = 32
               then (pending_blocks row @ [RowGroup [(f, 0, bits f - 1)]], align32 pos + bits f, [])
               else (pending_blocks row, align32 pos + bits f, [(f, 0, bits f - 1)]))"
  proof
    assume h: "bits f \<le> 32 \<and> 32 < pos mod 32 + bits f"
    have "pos mod 32 < 32" by simp
    with h have "1 \<le> bits f" by linarith
    with h have "(align32 pos + bits f) mod 32 = 0 \<longleftrightarrow> bits f = 32"
      by (cases "bits f = 32") (simp_all add: align32_add_mod align32_mod)
    with h show "pack_step pos row f =
              (if bits f = 32
               then (pending_blocks row @ [RowGroup [(f, 0, bits f - 1)]], align32 pos + bits f, [])
               else (pending_blocks row, align32 pos + bits f, [(f, 0, bits f - 1)]))"
      by (simp add: pack_step_overflow)
  qed
  from a b c show ?thesis by blast
qed

theorem row_group_invariant_witness:
  "pack [mk_field ''A'' 24, mk_field ''B'' 16, mk_field ''C'' 8] =
     [RowGroup [(mk_field ''A'' 24, 0, 23)],
      RowGroup [(mk_field ''B'' 16, 0, 15), (mk_field ''C'' 8, 16, 23)]]
   \<and> contiguous [(mk_field ''B'' 16, 0, 15), (mk_field ''C'' 8, 16, 23)]
   \<and> group_bits [(mk_field ''B'' 16, 0, 15), (mk_field ''C'' 8, 16, 23)] \<le> 32
   \<and> pack_step 24 [(mk_field ''A'' 24, 0, 23)] (mk_field ''B'' 16) =
       ([RowGroup [(mk_field ''A'' 24, 0, 23)]], 32 + 16, [(mk_field ''B'' 16, 0, 15)])"
proof -
  let ?fs = "[mk_field ''A'' 24, mk_field ''B'' 16, mk_field ''C'' 8]"
  let ?g = "[(mk_field ''B'' 16, 0, 15), (mk_field ''C'' 8, 16, 23)]"
  have h: "\<forall>f \<in> set ?fs. 1 \<le> bits f"
    by (simp add: mk_field_def)
  have p: "pack ?fs = [RowGroup [(mk_field ''A'' 24, 0, 23)], RowGroup ?g]"
    by (simp add: pack_def pack_step_def pending_blocks_def align32_def mk_field_def)
  have o: "bits (mk_field ''B'' 16) \<le> 32 \<and> 32 < 24 mod 32 + bits (mk_field ''B'' 16)"
    by (simp add: mk_field_def)
  have b: "bits (mk_field ''B'' 16) = 16"
    by (simp add: mk_field_def)
  from row_group_invariant [OF h, of ?g "mk_field ''B'' 16" 24 "[(mk_field ''A'' 24, 0, 23)]"] p o b
  show ?thesis
    by (simp add: pending_blocks_def align32_def)
qed

section \<open>Claims about generate_diagram\<close>

text \<open>
  Claim C8. For a protocol with a name, no total note and an empty field list,
  \<open>generate_diagram\<close> raises nothing and returns the title line, an empty line, the two ruler
  lines and the bottom border, joined by newlines, with nothing in between.
\<close>

theorem generate_diagram_empty_fields:
  "generate_lines \<lparr>proto_name = Some n, source = src, total_note = None, proto_fields = []\<rparr>
     = Inr [case src of None \<Rightarrow> n | Some s \<Rightarrow> n @ ascii '' ('' @ s @ ascii '')'',
            [], ruler1, ruler2, bottom_border]
   \<and> generate_diagram \<lparr>proto_name = Some n, source = src, total_note = None, proto_fields = []\<rparr>
     = Inr ((case src of None \<Rightarrow> n | Some s \<Rightarrow> n @ ascii '' ('' @ s @ ascii '')'')
            @ [NEWLINE] @ [NEWLINE] @ ruler1 @ [NEWLINE] @ ruler2 @ [NEWLINE] @ bottom_border)"
  by (simp add: generate_diagram_def generate_lines_def title_lines_def note_lines_def flush_row_def)

theorem generate_diagram_empty_fields_witness:
  "generate_lines \<lparr>proto_name = Some (ascii ''ARP''), source = Some (ascii ''RFC 826''),
                   total_note = None, proto_fields = []\<rparr>
     = Inr [ascii ''ARP (RFC 826)'', [], ruler1, ruler2, bottom_border]"
  using generate_diagram_empty_fields [of "ascii ''ARP''" "Some (ascii ''RFC 826'')"]
  by (simp add: ascii_def)

section \<open>Rendered lines keep their length\<close>

lemma list_set_length: "list_set xs i v = Inr ys \<Longrightarrow> length ys = length xs"
  by (auto simp: list_set_def Let_def split: if_splits)

lemma write_text_length: "write_text line cs ce lp i t = Inr line' \<Longrightarrow> length line' = length line"
proof (induction t arbitrary: line i)
  case Nil
  then show ?case by simp
next
  case (Cons ch rest)
  then show ?case
    by (auto simp: Let_def split: if_splits sum.splits dest: list_set_length)
qed

lemma write_wide_length: "write_wide line lp i t = Inr line' \<Longrightarrow> length line' = length line"
proof (induction t arbitrary: line i)
  case Nil
  then show ?case by simp
next
  case (Cons ch rest)
  then show ?case
    by (auto simp: Let_def split: if_splits sum.splits dest: list_set_length)
qed

lemma name_field_unfold:
  "name_field line (f, s, e) =
     (case write_text line (char_start s) (char_end e) (left_pad (span_width s e) (name f)) 0 (name f) of
        Inl er \<Rightarrow> Inl er
      | Inr line1 \<Rightarrow>
          if e < 31 \<and> char_end e < 64 then list_set line1 (char_end e) BOX_V else Inr line1)"
  by (simp add: name_field_def Let_def span_width_def)

lemma desc_field_unfold:
  "desc_field line (f, s, e) =
     (case (if desc_text f \<noteq> []
            then write_text line (char_start s) (char_end e)
                   (left_pad (span_width s e) (desc_text f)) 0 (desc_text f)
            else Inr line) of
        Inl er \<Rightarrow> Inl er
      | Inr line1 \<Rightarrow>
          if e < 31 \<and> e * 2 + 3 < 64 then list_set line1 (e * 2 + 3) BOX_V else Inr line1)"
  by (auto simp: desc_field_def Let_def span_width_def split: sum.splits)

lemma name_field_length:
  assumes "name_field line x = Inr line'"
  shows "length line' = length line"
proof -
  obtain f s e where x: "x = (f, s, e)" by (cases x) auto
  from assms obtain line1 where
    w: "write_text line (char_start s) (char_end e) (left_pad (span_width s e) (name f)) 0 (name f) = Inr line1"
    and r: "(if e < 31 \<and> char_end e < 64 then list_set line1 (char_end e) BOX_V else Inr line1) = Inr line'"
    unfolding x name_field_unfold by (auto split: sum.splits)
  from w have "length line1 = length line" by (rule write_text_length)
  moreover from r have "length line' = length line1"
    by (auto split: if_splits dest: list_set_length)
  ultimately show ?thesis by simp
qed

lemma desc_field_length:
  assumes "desc_field line x = Inr line'"
  shows "length line' = length line"
proof -
  obtain f s e where x: "x = (f, s, e)" by (cases x) auto
  from assms obtain line1 where
    w: "(if desc_text f \<noteq> []
         then write_text line (char_start s) (char_end e)
                (left_pad (span_width s e) (desc_text f)) 0 (desc_text f)
         else Inr line) = Inr line1"
    and r: "(if e < 31 \<and> e * 2 + 3 < 64 then list_set line1 (e * 2 + 3) BOX_V else Inr line1) = Inr line'"
    unfolding x desc_field_unfold by (auto split: sum.splits)
  from w have "length line1 = length line"
    by (auto split: if_splits dest: write_text_length)
  moreover from r have "length line' = length line1"
    by (auto split: if_splits dest: list_set_length)
  ultimately show ?thesis by simp
qed

lemma name_loop_length: "name_loop line row = Inr line' \<Longrightarrow> length line' = length line"
  by (induction row arbitrary: line) (auto split: sum.splits dest: name_field_length)

lemma desc_loop_length: "desc_loop line row = Inr line' \<Longrightarrow> length line' = length line"
  by (induction row arbitrary: line) (auto split: sum.splits dest: desc_field_length)

lemma length_blank_line: "length blank_line = 65"
  by (simp add: blank_line_def)

lemma length_row_border: "length (row_border row is_first) = 65"
  by (simp add: row_border_def)

lemma length_wide_border: "length (wide_border is_first) = 65"
  by (simp add: wide_border_def)

lemma length_bottom_border: "length bottom_border = 65"
  by (simp add: bottom_border_def)

lemma render_row_length:
  assumes "render_row row is_first = Inr ls" and "l \<in> set ls"
  shows "length l = 65"
  using assms
  by (auto simp: render_row_def Let_def length_row_border length_blank_line
      split: sum.splits if_splits dest!: name_loop_length desc_loop_length)

lemma render_wide_field_length:
  assumes "render_wide_field f is_first = Inr ls" and "l \<in> set ls"
  shows "length l = 65"
  using assms
  by (auto simp: render_wide_field_def Let_def length_wide_border length_blank_line
      split: sum.splits if_splits dest!: write_wide_length)

lemma render_block_length:
  "render_block b is_first = Inr ls \<Longrightarrow> l \<in> set ls \<Longrightarrow> length l = 65"
  by (cases b) (auto simp: render_block_def dest: render_row_length render_wide_field_length)

lemma render_blocks_length:
  "render_blocks is_first bs = Inr ls \<Longrightarrow> l \<in> set ls \<Longrightarrow> length l = 65"
proof (induction bs arbitrary: is_first ls)
  case Nil
  then show ?case by simp
next
  case (Cons b bs)
  then show ?case
    by (auto split: sum.splits dest: render_block_length)
qed

section \<open>The loop renders the blocks of the packer\<close>

lemma render_blocks_append:
  "render_blocks b (xs @ ys) =
     (case render_blocks b xs of
        Inl e \<Rightarrow> Inl e
      | Inr ls \<Rightarrow>
          (case render_blocks (b \<and> xs = []) ys of
             Inl e \<Rightarrow> Inl e
           | Inr ls' \<Rightarrow> Inr (ls @ ls')))"
proof (induction xs arbitrary: b)
  case Nil
  show ?case by (simp split: sum.splits)
next
  case (Cons x xs)
  show ?case
    by (simp add: Cons.IH [of False] split: sum.splits)
qed

lemma flush_row_pack:
  "flush_row st = append_rendered st (pending_blocks (row_fields st), bit_pos st, [])"
  by (cases st) (simp add: flush_row_def append_rendered_def pending_blocks_def render_block_def
      split: sum.splits)

lemma gd_step_pack:
  "gd_step st f = append_rendered st (pack_step (bit_pos st) (row_fields st) f)"
proof (rule pack_step_cases [of f "bit_pos st" "row_fields st"])
  assume "32 < bits f"
  then show ?thesis
    by (cases st)
      (simp add: gd_step_def pack_step_wide flush_row_def append_rendered_def pending_blocks_def
        render_block_def Let_def split: sum.splits)
next
  assume "bits f \<le> 32" "32 < bit_pos st mod 32 + bits f" "(align32 (bit_pos st) + bits f) mod 32 = 0"
  then show ?thesis
    by (cases st)
      (simp add: gd_step_def pack_step_overflow flush_row_def append_rendered_def pending_blocks_def
        render_block_def Let_def split: sum.splits)
next
  assume "bits f \<le> 32" "32 < bit_pos st mod 32 + bits f" "(align32 (bit_pos st) + bits f) mod 32 \<noteq> 0"
  then show ?thesis
    by (cases st)
      (simp add: gd_step_def pack_step_overflow flush_row_def append_rendered_def pending_blocks_def
        render_block_def Let_def split: sum.splits)
next
  assume "bits f \<le> 32" "bit_pos st mod 32 + bits f \<le> 32" "(bit_pos st + bits f) mod 32 = 0"
  then show ?thesis
    by (cases st)
      (simp add: gd_step_def pack_step_fits append_rendered_def render_block_def Let_def
        split: sum.splits)
next
  assume "bits f \<le> 32" "bit_pos st mod 32 + bits f \<le> 32" "(bit_pos st + bits f) mod 32 \<noteq> 0"
  then show ?thesis
    by (cases st)
      (simp add: gd_step_def pack_step_fits append_rendered_def render_block_def Let_def
        split: sum.splits)
qed

lemma gd_finish_pack:
  "gd_finish st fs =
     (case render_blocks (first_row st) (pack_loop (bit_pos st) (row_fields st) fs) of
        Inl e \<Rightarrow> Inl e
      | Inr ls \<Rightarrow> Inr (lines st @ ls))"
proof (induction fs arbitrary: st)
  case Nil
  show ?case
    by (simp add: gd_finish_def flush_row_pack append_rendered_def split: sum.splits)
next
  case (Cons f fs)
  obtain em pos' row' where step: "pack_step (bit_pos st) (row_fields st) f = (em, pos', row')"
    by (cases "pack_step (bit_pos st) (row_fields st) f") auto
  have unfold: "gd_finish st (f # fs) =
      (case gd_step st f of Inl e \<Rightarrow> Inl e | Inr st' \<Rightarrow> gd_finish st' fs)"
    by (simp add: gd_finish_def split: sum.splits)
  show ?case
    unfolding unfold gd_step_pack step
    by (simp add: append_rendered_def Cons.IH step render_blocks_append split: sum.splits)
qed

lemma generate_lines_pack:
  "generate_lines p =
     (case render_blocks True (pack (proto_fields p)) of
        Inl e \<Rightarrow> Inl e
      | Inr body \<Rightarrow> Inr (title_lines p @ [ruler1, ruler2] @ body @ [bottom_border] @ note_lines p))"
proof -
  have "generate_lines p =
     (case gd_finish \<lparr>lines = title_lines p @ [ruler1, ruler2], bit_pos = 0,
                 row_fields = [], first_row = True\<rparr> (proto_fields p) of
        Inl e \<Rightarrow> Inl e
      | Inr ls \<Rightarrow> Inr (ls @ [bottom_border] @ note_lines p))"
    by (simp add: generate_lines_def gd_finish_def split: sum.splits)
  then show ?thesis
    by (simp add: gd_finish_pack pack_def split: sum.splits)
qed

section \<open>Evaluating the renderer on an example\<close>

lemma list_update_Cons_numeral: "(x # xs)[numeral k := v] = x # xs[pred_numeral k := v]"
  by (simp add: numeral_eq_Suc)

lemma upto_from_0: "[0..62::int] = 0 # 1 # [2..62]"
  by (simp add: upto.simps)

lemma replicate_numeral: "replicate (numeral k) x = x # replicate (pred_numeral k) x"
  by (simp add: numeral_eq_Suc)

lemmas render_eval =
  render_row_def row_border_def is_boundary_def name_field_unfold desc_field_unfold has_desc_def
  truthy_desc_def desc_text_def blank_line_def list_set_def char_start_def char_end_def
  span_width_def left_pad_def ascii_def upto_from_0 list_update_Cons_numeral replicate_numeral Let_def
  SPACE_def

lemma render_row_example:
  "render_row [(mk_field ''Version'' 4, 0, 3), (mk_field ''Type'' 4, 4, 7), (mk_field ''Length'' 24, 8, 31)] True
  = Inr [[BOX_DR] @ replicate 8 BOX_H @ [BOX_DH] @ replicate 7 BOX_H @ [BOX_DH] @ replicate 46 BOX_H @ [BOX_DL],
         [BOX_V] @ ascii ''Version'' @ [BOX_V] @ ascii '' Type  '' @ [BOX_V] @ replicate 20 SPACE
           @ ascii ''Length'' @ replicate 21 SPACE @ [BOX_V]]"
  by (simp add: render_eval)

lemma pack_example:
  "pack [mk_field ''Version'' 4, mk_field ''Type'' 4, mk_field ''Length'' 24] =
     [RowGroup [(mk_field ''Version'' 4, 0, 3), (mk_field ''Type'' 4, 4, 7),
                (mk_field ''Length'' 24, 8, 31)]]"
  by (simp add: pack_def pack_step_def pending_blocks_def align32_def)

section \<open>Claims about rendering\<close>

text \<open>
  Claim C3, amended. The fields Version (4 bits), Type (4 bits) and Length (24 bits) pack into
  exactly one row group with bit spans 0 to 3, 4 to 7 and 8 to 31; the three labels are
  centred in character-column spans of widths 7, 7 and 47, with left paddings 0, 1 and 20,
  and the row renders as the border and the name line shown.
\<close>

theorem version_type_length_row:
  "pack [mk_field ''Version'' 4, mk_field ''Type'' 4, mk_field ''Length'' 24] =
     [RowGroup [(mk_field ''Version'' 4, 0, 3), (mk_field ''Type'' 4, 4, 7),
                (mk_field ''Length'' 24, 8, 31)]]
   \<and> span_width 0 3 = 7 \<and> span_width 4 7 = 7 \<and> span_width 8 31 = 47
   \<and> left_pad (span_width 0 3) (ascii ''Version'') = 0
   \<and> left_pad (span_width 4 7) (ascii ''Type'') = 1
   \<and> left_pad (span_width 8 31) (ascii ''Length'') = 20
   \<and> render_row [(mk_field ''Version'' 4, 0, 3), (mk_field ''Type'' 4, 4, 7),
                  (mk_field ''Length'' 24, 8, 31)] True =
       Inr [[BOX_DR] @ replicate 8 BOX_H @ [BOX_DH] @ replicate 7 BOX_H @ [BOX_DH]
              @ replicate 46 BOX_H @ [BOX_DL],
            [BOX_V] @ ascii ''Version'' @ [BOX_V] @ ascii '' Type  '' @ [BOX_V]
              @ replicate 20 SPACE @ ascii ''Length'' @ replicate 21 SPACE @ [BOX_V]]"
  using render_row_example pack_example
  by (simp add: span_width_def char_start_def char_end_def left_pad_def ascii_def)

text \<open>
  Claim C3 as stated fails: the spans of Version and Type are 7 character columns wide, not 8
  (the eighth column holds the separator).
\<close>

theorem span_width_8_counterexample:
  "pack [mk_field ''Version'' 4, mk_field ''Type'' 4, mk_field ''Length'' 24] =
     [RowGroup [(mk_field ''Version'' 4, 0, 3), (mk_field ''Type'' 4, 4, 7),
                (mk_field ''Length'' 24, 8, 31)]]
   \<and> span_width 0 3 = 7 \<and> span_width 0 3 \<noteq> 8 \<and> span_width 4 7 = 7 \<and> span_width 4 7 \<noteq> 8"
  using pack_example
  by (simp add: span_width_def char_start_def char_end_def)

text \<open>
  Claim C10. When \<open>generate_diagram\<close> returns, the lines between the ruler and the optional
  note are the rendering of the packer's blocks followed by the bottom border, and each of
  them (every row border, name line, description line and wide-block line, and the bottom
  border) is exactly 65 characters long.
\<close>

theorem body_lines_length_65:
  assumes "generate_diagram p = Inr s"
  shows "\<exists>body. generate_lines p = Inr (title_lines p @ [ruler1, ruler2] @ body @ [bottom_border] @ note_lines p)
           \<and> s = join_lines (title_lines p @ [ruler1, ruler2] @ body @ [bottom_border] @ note_lines p)
           \<and> render_blocks True (pack (proto_fields p)) = Inr body
           \<and> list_all (\<lambda>l. length l = 65) (body @ [bottom_border])"
proof -
  from assms obtain ls where ls: "generate_lines p = Inr ls" and s: "s = join_lines ls"
    by (auto simp: generate_diagram_def split: sum.splits)
  from ls obtain body where body: "render_blocks True (pack (proto_fields p)) = Inr body"
    and eq: "ls = title_lines p @ [ruler1, ruler2] @ body @ [bottom_border] @ note_lines p"
    by (auto simp: generate_lines_pack split: sum.splits)
  have "list_all (\<lambda>l. length l = 65) body"
    using render_blocks_length [OF body] by (simp add: list_all_iff)
  with ls s body eq show ?thesis
    by (simp add: length_bottom_border)
qed

theorem body_lines_length_65_witness:
  "generate_diagram \<lparr>proto_name = None, source = None, total_note = None,
       proto_fields = [mk_field ''Version'' 4, mk_field ''Type'' 4, mk_field ''Length'' 24]\<rparr> =
     Inr (join_lines
       [ruler1, ruler2,
        [BOX_DR] @ replicate 8 BOX_H @ [BOX_DH] @ replicate 7 BOX_H @ [BOX_DH]
          @ replicate 46 BOX_H @ [BOX_DL],
        [BOX_V] @ ascii ''Version'' @ [BOX_V] @ ascii '' Type  '' @ [BOX_V]
          @ replicate 20 SPACE @ ascii ''Length'' @ replicate 21 SPACE @ [BOX_V],
        bottom_border])
   \<and> length ([BOX_V] @ ascii ''Version'' @ [BOX_V] @ ascii '' Type  '' @ [BOX_V]
          @ replicate 20 SPACE @ ascii ''Length'' @ replicate 21 SPACE @ [BOX_V]) = 65"
proof -
  let ?p = "\<lparr>proto_name = None, source = None, total_note = None,
       proto_fields = [mk_field ''Version'' 4, mk_field ''Type'' 4, mk_field ''Length'' 24]\<rparr>"
  let ?b = "[BOX_DR] @ replicate 8 BOX_H @ [BOX_DH] @ replicate 7 BOX_H @ [BOX_DH]
          @ replicate 46 BOX_H @ [BOX_DL]"
  let ?n = "[BOX_V] @ ascii ''Version'' @ [BOX_V] @ ascii '' Type  '' @ [BOX_V]
          @ replicate 20 SPACE @ ascii ''Length'' @ replicate 21 SPACE @ [BOX_V]"
  have rb: "render_blocks True (pack (proto_fields ?p)) = Inr [?b, ?n]"
    using render_row_example pack_example by (simp add: render_block_def)
  have h: "generate_diagram ?p = Inr (join_lines [ruler1, ruler2, ?b, ?n, bottom_border])"
    unfolding generate_diagram_def generate_lines_pack rb
    by (simp add: title_lines_def note_lines_def)
  from body_lines_length_65 [OF h] rb h show ?thesis
    by auto
qed

section \<open>Labels longer than their span\<close>

lemma list_set_below: "i < - int (length xs) \<Longrightarrow> list_set xs i v = Inl IndexError"
  by (simp add: list_set_def Let_def)

lemma write_text_raises:
  assumes "t \<noteq> []" and "cs + lp + i < - int (length line)" and "cs + lp + i < ce"
  shows "write_text line cs ce lp i t = Inl IndexError"
proof -
  from assms(1) obtain ch rest where t: "t = ch # rest" by (cases t) auto
  from assms(2) have "cs + lp + i < 64" by linarith
  with assms(2,3) show ?thesis
    by (simp add: t Let_def list_set_below)
qed

lemma write_wide_raises:
  assumes "t \<noteq> []" and "lp + i + 1 < - int (length line)"
  shows "write_wide line lp i t = Inl IndexError"
proof -
  from assms(1) obtain ch rest where t: "t = ch # rest" by (cases t) auto
  from assms(2) have "lp + i + 1 < 64" by linarith
  with assms(2) show ?thesis
    by (simp add: t Let_def list_set_below)
qed

lemma long_name_row_raises:
  "render_row [(mk_field (replicate 134 CHR ''A'') 1, 0, 0)] True = Inl IndexError"
proof -
  have "write_text blank_line (char_start 0) (char_end 0)
          (left_pad (span_width 0 0) (ascii (replicate 134 CHR ''A''))) 0
          (ascii (replicate 134 CHR ''A'')) = Inl IndexError"
    by (rule write_text_raises)
      (simp_all add: ascii_def length_blank_line char_start_def char_end_def span_width_def left_pad_def)
  then show ?thesis
    by (simp add: render_row_def name_field_unfold)
qed

text \<open>
  Claim C6: the code does not meet it. The guard \<open>pos < char_end and pos < 64\<close> has no lower
  bound, so the characters of an over-long label that fall left of the span are written, with
  Python's negative indices counting from the end of the line, and an index below -65 raises
  IndexError. A 134-character name on a 1-bit field makes \<open>generate_diagram\<close> raise; the
  3-character name \<open>abc\<close> on a 1-bit field overwrites the left border with \<open>a\<close>; a
  196-character name on a wide field makes \<open>_render_wide_field\<close> raise.
\<close>

theorem long_label_raises:
  "generate_diagram \<lparr>proto_name = None, source = None, total_note = None,
       proto_fields = [mk_field (replicate 134 CHR ''A'') 1]\<rparr> = Inl IndexError
   \<and> render_row [(mk_field ''abc'' 1, 0, 0)] True =
       Inr [[BOX_DR] @ replicate 63 BOX_H @ [BOX_DL],
            ascii ''ab'' @ [BOX_V] @ replicate 61 SPACE @ [BOX_V]]
   \<and> render_wide_field (mk_field (replicate 196 CHR ''A'') 64) True = Inl IndexError"
proof -
  have a: "generate_diagram \<lparr>proto_name = None, source = None, total_note = None,
       proto_fields = [mk_field (replicate 134 CHR ''A'') 1]\<rparr> = Inl IndexError"
    unfolding generate_diagram_def generate_lines_pack
    by (simp add: pack_def pack_step_def pending_blocks_def render_block_def long_name_row_raises)
  have b: "render_row [(mk_field ''abc'' 1, 0, 0)] True =
       Inr [[BOX_DR] @ replicate 63 BOX_H @ [BOX_DL],
            ascii ''ab'' @ [BOX_V] @ replicate 61 SPACE @ [BOX_V]]"
    by (simp add: render_eval)
  have "write_wide blank_line (wide_left_pad (ascii (replicate 196 CHR ''A''))) 0
          (ascii (replicate 196 CHR ''A'')) = Inl IndexError"
    by (rule write_wide_raises) (simp_all add: ascii_def length_blank_line wide_left_pad_def)
  then have c: "render_wide_field (mk_field (replicate 196 CHR ''A'') 64) True = Inl IndexError"
    by (simp add: render_wide_field_def)
  from a b c show ?thesis by blast
qed

section \<open>Labels that fit their span\<close>

lemma list_set_in_range:
  "0 \<le> i \<Longrightarrow> i < int (length xs) \<Longrightarrow> list_set xs i v = Inr (xs[nat i := v])"
  by (simp add: list_set_def Let_def)

lemma take_Suc_update: "n < length xs \<Longrightarrow> take (Suc n) (xs[n := v]) = take n xs @ [v]"
  by (simp add: take_Suc_conv_app_nth)

lemma write_text_fits:
  assumes "0 \<le> cs + lp + i" and "cs + lp + i + int (length t) \<le> ce"
    and "cs + lp + i + int (length t) \<le> 64" and "64 \<le> int (length line)"
  shows "write_text line cs ce lp i t =
           Inr (take (nat (cs + lp + i)) line @ t @ drop (nat (cs + lp + i) + length t) line)"
  using assms
proof (induction t arbitrary: line i)
  case Nil
  then show ?case by simp
next
  case (Cons ch rest)
  let ?pos = "cs + lp + i"
  let ?n = "nat ?pos"
  from Cons.prems have lt: "?pos < ce" "?pos < 64" "?pos < int (length line)" and nn: "0 \<le> ?pos"
    by simp_all
  then have n: "?n < length line" by linarith
  have set: "list_set line ?pos ch = Inr (line[?n := ch])"
    using nn lt(3) by (rule list_set_in_range)
  have ih: "write_text (line[?n := ch]) cs ce lp (i + 1) rest =
      Inr (take (nat (cs + lp + (i + 1))) (line[?n := ch]) @ rest
           @ drop (nat (cs + lp + (i + 1)) + length rest) (line[?n := ch]))"
    using Cons.prems by (intro Cons.IH) simp_all
  have suc: "nat (cs + lp + (i + 1)) = Suc ?n"
    using nn by linarith
  have "write_text line cs ce lp i (ch # rest) = write_text (line[?n := ch]) cs ce lp (i + 1) rest"
    using lt set by (simp add: Let_def)
  also have "\<dots> = Inr (take (Suc ?n) (line[?n := ch]) @ rest
           @ drop (Suc ?n + length rest) (line[?n := ch]))"
    unfolding ih suc ..
  also have "\<dots> = Inr (take ?n line @ (ch # rest) @ drop (?n + length (ch # rest)) line)"
    using n by (simp add: take_Suc_update)
  finally show ?case .
qed

lemma write_wide_as_text: "write_wide line lp i t = write_text line 1 64 lp i t"
proof (induction t arbitrary: line i)
  case Nil
  show ?case by simp
next
  case (Cons ch rest)
  have eq: "1 + lp + i = lp + i + 1" by simp
  show ?case
    unfolding write_wide.simps write_text.simps eq Cons.IH by simp
qed

lemma floor_half: "2 * ((d::int) div 2) \<le> d \<and> d \<le> 2 * (d div 2) + 1"
  by linarith

lemma trunc_div_nonneg: "0 \<le> a \<Longrightarrow> trunc_div a 2 = a div 2"
  by (cases "a = 0") (simp_all add: trunc_div_def)

lemma wide_name_line_fits:
  assumes "length t \<le> 63"
  shows "write_wide blank_line (wide_left_pad t) 0 t =
           Inr ([BOX_V] @ replicate (nat (wide_left_pad t)) SPACE @ t
                @ replicate (63 - length t - nat (wide_left_pad t)) SPACE @ [BOX_V])"
proof -
  let ?lp = "wide_left_pad t"
  from assms have lp0: "0 \<le> ?lp" and lp1: "?lp + int (length t) \<le> 63"
    unfolding wide_left_pad_def by linarith+
  obtain k where k: "nat (1 + ?lp + 0) = Suc k" "k = nat ?lp"
    using lp0 by (metis Suc_nat_eq_nat_zadd1 add.commute add.right_neutral)
  have k63: "k + length t \<le> 63" using lp0 lp1 k(2) by linarith
  have "write_wide blank_line ?lp 0 t = write_text blank_line 1 64 ?lp 0 t"
    by (rule write_wide_as_text)
  also have "\<dots> = Inr (take (nat (1 + ?lp + 0)) blank_line @ t
                       @ drop (nat (1 + ?lp + 0) + length t) blank_line)"
    using lp0 lp1 by (intro write_text_fits) (simp_all add: length_blank_line)
  also have "\<dots> = Inr ([BOX_V] @ replicate k SPACE @ t @ replicate (63 - length t - k) SPACE @ [BOX_V])"
    unfolding k(1) using k63 by (simp add: blank_line_def min_def)
  finally show ?thesis by (simp add: k(2))
qed

text \<open>
  Claim C7, amended. The left padding of a centred text is the floor of
  (span width - text length) / 2, for a normal-row span and, with width 63, for a wide block.
  When the text is no longer than the span this is the truncating division of the
  specification, the padding is not negative, and the right padding exceeds the left one by
  exactly the parity of the leftover, so an odd leftover puts the extra column on the right;
  the text is then written at the columns that follow the left padding.
\<close>

theorem left_pad_floor_centering:
  "2 * left_pad w t \<le> w - int (length t) \<and> w - int (length t) \<le> 2 * left_pad w t + 1
   \<and> wide_left_pad t = left_pad 63 t
   \<and> (int (length t) \<le> w \<longrightarrow>
         left_pad w t = spec_left_pad w (length t) \<and> 0 \<le> left_pad w t
         \<and> (w - int (length t) - left_pad w t) - left_pad w t = (w - int (length t)) mod 2)
   \<and> (int (length t) \<le> span_width s e \<and> 0 \<le> s \<and> e \<le> 31 \<and> length line = 65 \<longrightarrow>
         write_text line (char_start s) (char_end e) (left_pad (span_width s e) t) 0 t =
           Inr (take (nat (char_start s + left_pad (span_width s e) t)) line @ t
                @ drop (nat (char_start s + left_pad (span_width s e) t) + length t) line))
   \<and> (length t \<le> 63 \<longrightarrow>
         write_wide blank_line (wide_left_pad t) 0 t =
           Inr ([BOX_V] @ replicate (nat (wide_left_pad t)) SPACE @ t
                @ replicate (63 - length t - nat (wide_left_pad t)) SPACE @ [BOX_V]))"
proof -
  have a: "2 * left_pad w t \<le> w - int (length t) \<and> w - int (length t) \<le> 2 * left_pad w t + 1"
    unfolding left_pad_def by (rule floor_half)
  have b: "wide_left_pad t = left_pad 63 t"
    by (simp add: wide_left_pad_def left_pad_def)
  have c: "int (length t) \<le> w \<longrightarrow>
         left_pad w t = spec_left_pad w (length t) \<and> 0 \<le> left_pad w t
         \<and> (w - int (length t) - left_pad w t) - left_pad w t = (w - int (length t)) mod 2"
  proof
    assume "int (length t) \<le> w"
    then have d0: "0 \<le> w - int (length t)" by simp
    have "left_pad w t = spec_left_pad w (length t)"
      using trunc_div_nonneg [OF d0] by (simp add: left_pad_def spec_left_pad_def)
    moreover have "0 \<le> left_pad w t"
      using d0 by (simp add: left_pad_def)
    moreover have "(w - int (length t) - left_pad w t) - left_pad w t = (w - int (length t)) mod 2"
      unfolding left_pad_def by presburger
    ultimately show "left_pad w t = spec_left_pad w (length t) \<and> 0 \<le> left_pad w t
         \<and> (w - int (length t) - left_pad w t) - left_pad w t = (w - int (length t)) mod 2"
      by blast
  qed
  have d: "int (length t) \<le> span_width s e \<and> 0 \<le> s \<and> e \<le> 31 \<and> length line = 65 \<longrightarrow>
         write_text line (char_start s) (char_end e) (left_pad (span_width s e) t) 0 t =
           Inr (take (nat (char_start s + left_pad (span_width s e) t)) line @ t
                @ drop (nat (char_start s + left_pad (span_width s e) t) + length t) line)"
  proof
    assume h: "int (length t) \<le> span_width s e \<and> 0 \<le> s \<and> e \<le> 31 \<and> length line = 65"
    let ?lp = "left_pad (span_width s e) t"
    from h have lp0: "0 \<le> ?lp" and lp1: "?lp + int (length t) \<le> span_width s e"
      unfolding left_pad_def by linarith+
    have ce: "char_start s + span_width s e = char_end e"
      by (simp add: span_width_def)
    have ce64: "char_end e \<le> 64" using h by (simp add: char_end_def)
    have cs0: "0 \<le> char_start s" using h by (simp add: char_start_def)
    have "write_text line (char_start s) (char_end e) ?lp 0 t =
           Inr (take (nat (char_start s + ?lp + 0)) line @ t
                @ drop (nat (char_start s + ?lp + 0) + length t) line)"
      using lp0 lp1 ce ce64 cs0 h by (intro write_text_fits) simp_all
    then show "write_text line (char_start s) (char_end e) ?lp 0 t =
           Inr (take (nat (char_start s + ?lp)) line @ t
                @ drop (nat (char_start s + ?lp) + length t) line)"
      by simp
  qed
  have e: "length t \<le> 63 \<longrightarrow>
         write_wide blank_line (wide_left_pad t) 0 t =
           Inr ([BOX_V] @ replicate (nat (wide_left_pad t)) SPACE @ t
                @ replicate (63 - length t - nat (wide_left_pad t)) SPACE @ [BOX_V])"
    using wide_name_line_fits by blast
  from a b c d e show ?thesis by blast
qed

theorem left_pad_floor_centering_witness:
  "left_pad 7 (ascii ''Type'') = 1 \<and> spec_left_pad 7 (length (ascii ''Type'')) = 1
   \<and> 7 - int (length (ascii ''Type'')) - left_pad 7 (ascii ''Type'') = 2
   \<and> write_wide blank_line (wide_left_pad (ascii ''Options'')) 0 (ascii ''Options'') =
       Inr ([BOX_V] @ replicate 28 SPACE @ ascii ''Options'' @ replicate 28 SPACE @ [BOX_V])"
proof -
  have h1: "int (length (ascii ''Type'')) \<le> 7" by (simp add: ascii_def)
  have h2: "length (ascii ''Options'') \<le> 63" by (simp add: ascii_def)
  have v: "left_pad 7 (ascii ''Type'') = 1" "wide_left_pad (ascii ''Options'') = 28"
    by (simp_all add: left_pad_def wide_left_pad_def ascii_def)
  have l: "length (ascii ''Type'') = 4" "length (ascii ''Options'') = 7"
    by (simp_all add: ascii_def)
  from left_pad_floor_centering [of 7 "ascii ''Type''"] h1 v l
  have t: "spec_left_pad 7 (length (ascii ''Type'')) = 1" by simp
  from left_pad_floor_centering [of 7 "ascii ''Options''"] h2 v l
  have o: "write_wide blank_line (wide_left_pad (ascii ''Options'')) 0 (ascii ''Options'') =
       Inr ([BOX_V] @ replicate 28 SPACE @ ascii ''Options'' @ replicate 28 SPACE @ [BOX_V])"
    by simp
  from t o v l show ?thesis by simp
qed

text \<open>
  Claim C7 as stated fails for a text longer than its span by an odd amount: a 10-character
  label in the 7-column span of a 4-bit field gets left padding -2 from the code, and -1 from
  truncating division.
\<close>

theorem left_pad_truncation_counterexample:
  "span_width 0 3 = 7 \<and> length (ascii ''Identifier'') = 10
   \<and> left_pad (span_width 0 3) (ascii ''Identifier'') = - 2
   \<and> spec_left_pad (span_width 0 3) (length (ascii ''Identifier'')) = - 1
   \<and> left_pad (span_width 0 3) (ascii ''Identifier'')
       \<noteq> spec_left_pad (span_width 0 3) (length (ascii ''Identifier''))"
  by (simp add: span_width_def char_start_def char_end_def left_pad_def spec_left_pad_def
      trunc_div_def ascii_def)

section \<open>The columns of a rendered row\<close>

lemma length_overwrite_at:
  "n + length t \<le> length line \<Longrightarrow> length (overwrite_at line n t) = length line"
  by (simp add: overwrite_at_def)

lemma nth_overwrite_at:
  assumes "n + length t \<le> length line" and "j < length line"
  shows "overwrite_at line n t ! j = (if n \<le> j \<and> j < n + length t then t ! (j - n) else line ! j)"
proof -
  have ln: "length (take n line) = n" using assms(1) by simp
  consider "j < n" | "n \<le> j" "j < n + length t" | "n + length t \<le> j" by linarith
  then show ?thesis
  proof cases
    case 1
    then show ?thesis using assms by (simp add: overwrite_at_def nth_append min_def)
  next
    case 2
    then have "\<not> j < n" "j - n < length t" by linarith+
    with 2 show ?thesis using assms by (simp add: overwrite_at_def nth_append min_def)
  next
    case 3
    then have a: "\<not> j < n" "\<not> j - n < length t" by linarith+
    have eq: "n + length t + (j - n - length t) = j" using 3 by linarith
    have "drop (n + length t) line ! (j - n - length t) = line ! (n + length t + (j - n - length t))"
      using assms(1) by (rule nth_drop)
    then have "drop (n + length t) line ! (j - n - length t) = line ! j"
      unfolding eq .
    with 3 a show ?thesis using assms by (simp add: overwrite_at_def nth_append min_def)
  qed
qed


text \<open>The effect of one iteration of the name-line loop when the label fits its span.\<close>

lemma name_field_fits:
  assumes "0 \<le> s" and "s \<le> e" and "e \<le> 31"
    and "int (length (name f)) \<le> span_width s e" and "length line = 65"
  shows "name_field line (f, s, e) =
           Inr (if e < 31
                then (overwrite_at line (nat (char_start s + left_pad (span_width s e) (name f))) (name f))
                       [nat (char_end e) := BOX_V]
                else overwrite_at line (nat (char_start s + left_pad (span_width s e) (name f))) (name f))"
proof -
  let ?lp = "left_pad (span_width s e) (name f)"
  let ?n = "nat (char_start s + ?lp)"
  from assms(4) have lp0: "0 \<le> ?lp" and lp1: "?lp + int (length (name f)) \<le> span_width s e"
    unfolding left_pad_def by linarith+
  have ce: "char_start s + span_width s e = char_end e" by (simp add: span_width_def)
  have ce64: "char_end e \<le> 64" using assms(3) by (simp add: char_end_def)
  have cs0: "0 \<le> char_start s" using assms(1) by (simp add: char_start_def)
  have w: "write_text line (char_start s) (char_end e) ?lp 0 (name f) = Inr (overwrite_at line ?n (name f))"
    using write_text_fits [of "char_start s" ?lp 0 "name f" "char_end e" line]
      lp0 lp1 ce ce64 cs0 assms(5)
    by (simp add: overwrite_at_def)
  have len: "length (overwrite_at line ?n (name f)) = 65"
    using lp0 lp1 ce ce64 cs0 assms(5) by (subst length_overwrite_at) linarith+
  show ?thesis
  proof (cases "e < 31")
    case True
    then have c: "0 \<le> char_end e" "char_end e < 64" using assms(1,2) by (simp_all add: char_end_def)
    then have "list_set (overwrite_at line ?n (name f)) (char_end e) BOX_V =
        Inr ((overwrite_at line ?n (name f))[nat (char_end e) := BOX_V])"
      using len by (intro list_set_in_range) simp_all
    with True c w show ?thesis by (simp add: name_field_unfold)
  next
    case False
    with w show ?thesis by (simp add: name_field_unfold)
  qed
qed

lemma name_cell_unwritten: "\<not> name_writes x j \<Longrightarrow> name_cell x j old = old"
  by (cases x) (auto simp: name_writes_def name_cell_def)

lemma name_field_cell:
  assumes "entry_ok (f, s, e)" and "label_fits (f, s, e)" and "length line = 65" and "j < 65"
  shows "\<exists>line'. name_field line (f, s, e) = Inr line' \<and> length line' = 65
           \<and> line' ! j = name_cell (f, s, e) j (line ! j)"
proof -
  let ?lp = "left_pad (span_width s e) (name f)"
  let ?n = "nat (char_start s + ?lp)"
  let ?o = "overwrite_at line ?n (name f)"
  from assms(1) have ok: "0 \<le> s" "s \<le> e" "e \<le> 31" by (simp_all add: entry_ok_def)
  from assms(2) have fit: "int (length (name f)) \<le> span_width s e" by (simp add: label_fits_def)
  from fit have lp0: "0 \<le> ?lp" and lp1: "?lp + int (length (name f)) \<le> span_width s e"
    unfolding left_pad_def by linarith+
  have ce: "char_start s + span_width s e = char_end e" by (simp add: span_width_def)
  have ce64: "char_end e \<le> 64" using ok by (simp add: char_end_def)
  have cs0: "0 \<le> char_start s" using ok by (simp add: char_start_def)
  have nlen: "?n + length (name f) \<le> length line"
    using lp0 lp1 ce ce64 cs0 assms(3) by linarith
  have olen: "length ?o = 65"
    using nlen assms(3) by (simp add: length_overwrite_at)
  have onth: "?o ! j = (if ?n \<le> j \<and> j < ?n + length (name f) then name f ! (j - ?n) else line ! j)"
    using nlen assms(3,4) by (intro nth_overwrite_at) simp_all
  have range: "(?n \<le> j \<and> j < ?n + length (name f))
      \<longleftrightarrow> (char_start s + ?lp \<le> int j \<and> int j < char_start s + ?lp + int (length (name f)))"
    using lp0 cs0 by linarith
  have idx: "?n \<le> j \<Longrightarrow> j - ?n = nat (int j - (char_start s + ?lp))"
    using lp0 cs0 by linarith
  have nf: "name_field line (f, s, e) = Inr (if e < 31 then ?o[nat (char_end e) := BOX_V] else ?o)"
    using ok fit assms(3) by (rule name_field_fits)
  show ?thesis
  proof (cases "e < 31")
    case True
    have c: "0 \<le> char_end e" using ok by (simp add: char_end_def)
    have lab: "char_start s + ?lp + int (length (name f)) \<le> char_end e"
      using lp1 ce by linarith
    show ?thesis
    proof (cases "int j = char_end e")
      case eq: True
      then have "nat (char_end e) = j" by simp
      with True eq nf olen assms(4) show ?thesis
        by (simp add: name_cell_def)
    next
      case ne: False
      then have "nat (char_end e) \<noteq> j" using c by linarith
      with True ne nf olen onth range idx show ?thesis
        by (auto simp: name_cell_def)
    qed
  next
    case False
    with nf olen onth range idx show ?thesis
      by (auto simp: name_cell_def)
  qed
qed

lemma name_loop_frame:
  assumes "list_all entry_ok row" and "list_all label_fits row" and "length line = 65" and "j < 65"
    and "\<forall>x \<in> set row. \<not> name_writes x j"
  shows "\<exists>nl. name_loop line row = Inr nl \<and> length nl = 65 \<and> nl ! j = line ! j"
  using assms
proof (induction row arbitrary: line)
  case Nil
  then show ?case by simp
next
  case (Cons x rest)
  obtain f s e where x: "x = (f, s, e)" by (cases x) auto
  from Cons.prems x have "entry_ok (f, s, e)" "label_fits (f, s, e)" by simp_all
  from name_field_cell [OF this Cons.prems(3,4)] obtain l1 where
    l1: "name_field line (f, s, e) = Inr l1" "length l1 = 65" "l1 ! j = name_cell (f, s, e) j (line ! j)"
    by blast
  from Cons.prems(5) x have "\<not> name_writes (f, s, e) j" by simp
  then have same: "l1 ! j = line ! j" using l1(3) by (simp add: name_cell_unwritten)
  from Cons.prems have "list_all entry_ok rest" "list_all label_fits rest" "\<forall>x \<in> set rest. \<not> name_writes x j"
    by simp_all
  from Cons.IH [OF this(1,2) l1(2) Cons.prems(4) this(3)] obtain nl where
    "name_loop l1 rest = Inr nl" "length nl = 65" "nl ! j = l1 ! j" by blast
  with l1(1) same x show ?case by simp
qed

lemma name_loop_total:
  assumes "list_all entry_ok row" and "list_all label_fits row" and "length line = 65"
  shows "\<exists>nl. name_loop line row = Inr nl \<and> length nl = 65"
  using assms
proof (induction row arbitrary: line)
  case Nil
  then show ?case by simp
next
  case (Cons x rest)
  obtain f s e where x: "x = (f, s, e)" by (cases x) auto
  from Cons.prems x have "entry_ok (f, s, e)" "label_fits (f, s, e)" by simp_all
  from name_field_cell [OF this Cons.prems(3), of 0] obtain l1 where
    l1: "name_field line (f, s, e) = Inr l1" "length l1 = 65"
    by auto
  from Cons.prems have "list_all entry_ok rest" "list_all label_fits rest" by simp_all
  from Cons.IH [OF this l1(2)] l1(1) x show ?case by simp
qed

lemma name_writes_bounds:
  assumes "entry_ok x" and "label_fits x" and "name_writes x j"
  shows "char_start (start_of x) \<le> int j \<and> int j \<le> char_end (end_of x)"
proof -
  obtain f s e where x: "x = (f, s, e)" by (cases x) auto
  let ?lp = "left_pad (span_width s e) (name f)"
  from assms(2) x have "int (length (name f)) \<le> span_width s e" by (simp add: label_fits_def)
  then have lp0: "0 \<le> ?lp" and lp1: "?lp + int (length (name f)) \<le> span_width s e"
    unfolding left_pad_def by linarith+
  have ce: "char_start s + span_width s e = char_end e" by (simp add: span_width_def)
  from assms(1) x have "s \<le> e" by (simp add: entry_ok_def)
  then have "char_start s \<le> char_end e" by (simp add: char_start_def char_end_def)
  with assms(3) x lp0 lp1 ce show ?thesis
    by (auto simp: name_writes_def start_of_def end_of_def)
qed

lemma span_order:
  "end_of x < start_of y \<Longrightarrow> char_end (end_of x) < char_start (start_of y)"
  by (simp add: char_start_def char_end_def)

lemma name_loop_cell:
  assumes "list_all entry_ok row" and "list_all label_fits row"
    and "sorted_wrt (\<lambda>x y. end_of x < start_of y) row" and "length line = 65"
    and "x \<in> set row" and "j < 65"
    and "char_start (start_of x) \<le> int j" and "int j \<le> char_end (end_of x)"
  shows "\<exists>nl. name_loop line row = Inr nl \<and> length nl = 65 \<and> nl ! j = name_cell x j (line ! j)"
  using assms(1-5)
proof (induction row arbitrary: line)
  case Nil
  then show ?case by simp
next
  case (Cons y rest)
  obtain f s e where y: "y = (f, s, e)" by (cases y) auto
  from Cons.prems y have oky: "entry_ok (f, s, e)" "label_fits (f, s, e)" by simp_all
  from name_field_cell [OF this Cons.prems(4) assms(6)] obtain l1 where
    l1: "name_field line (f, s, e) = Inr l1" "length l1 = 65" "l1 ! j = name_cell (f, s, e) j (line ! j)"
    by blast
  from Cons.prems have rest: "list_all entry_ok rest" "list_all label_fits rest"
    "sorted_wrt (\<lambda>x y. end_of x < start_of y) rest" and after: "\<forall>z \<in> set rest. end_of y < start_of z"
    by simp_all
  show ?case
  proof (cases "x = y")
    case True
    have "\<forall>z \<in> set rest. \<not> name_writes z j"
    proof
      fix z assume z: "z \<in> set rest"
      with after have "char_end (end_of y) < char_start (start_of z)" by (simp add: span_order)
      with assms(8) True have "int j < char_start (start_of z)" by simp
      moreover from z rest have "entry_ok z" "label_fits z" by (simp_all add: list_all_iff)
      ultimately show "\<not> name_writes z j" using name_writes_bounds by fastforce
    qed
    from name_loop_frame [OF rest(1,2) l1(2) assms(6) this] obtain nl where
      "name_loop l1 rest = Inr nl" "length nl = 65" "nl ! j = l1 ! j" by blast
    with l1 True y show ?thesis by simp
  next
    case False
    with Cons.prems(5) have xin: "x \<in> set rest" by simp
    with after have "char_end (end_of y) < char_start (start_of x)" by (simp add: span_order)
    with assms(7) have "char_end (end_of y) < int j" by simp
    then have "\<not> name_writes y j"
      using name_writes_bounds [of y j] oky y by fastforce
    then have same: "l1 ! j = line ! j" using l1(3) y by (simp add: name_cell_unwritten)
    from Cons.IH [OF rest l1(2) xin] obtain nl where
      "name_loop l1 rest = Inr nl" "length nl = 65" "nl ! j = name_cell x j (l1 ! j)" by blast
    with l1(1) same y show ?thesis by simp
  qed
qed

lemma blank_line_interior: "1 \<le> j \<Longrightarrow> j \<le> 63 \<Longrightarrow> blank_line ! j = SPACE"
  by (cases j) (simp_all add: blank_line_def nth_append)

lemma good_group_ends_sorted:
  assumes "good_group g"
  shows "sorted_wrt (<) (map end_of g)"
proof -
  from assms have s: "sorted_wrt (\<lambda>x y. end_of x < start_of y) g" by (rule good_group_sorted)
  from assms have ok: "\<forall>x \<in> set g. start_of x \<le> end_of x"
    by (auto simp: good_group_def list_all_iff entry_ok_def start_of_def end_of_def)
  have "sorted_wrt (\<lambda>x y. end_of x < end_of y) g"
    using s ok by (rule_tac sorted_wrt_mono_rel [of g "\<lambda>x y. end_of x < start_of y"]) force+
  then show ?thesis by (simp add: sorted_wrt_map)
qed

lemma butlast_has_successor:
  assumes "sorted_wrt (\<lambda>x y. end_of x < start_of y) g" and "x \<in> set (butlast g)"
  shows "\<exists>y \<in> set g. end_of x < start_of y"
  using assms
proof (induction g rule: rev_induct)
  case Nil
  then show ?case by simp
next
  case (snoc z g)
  then show ?case by (auto simp: sorted_wrt_append)
qed

lemma good_group_inner_ends:
  assumes "good_group g" and "x \<in> set (butlast g)"
  shows "0 \<le> end_of x \<and> end_of x \<le> 30"
proof -
  from assms(2) have xin: "x \<in> set g" by (rule in_set_butlastD)
  with assms(1) have "entry_ok x" by (simp add: good_group_def list_all_iff)
  then have e0: "0 \<le> end_of x" by (cases x) (auto simp: entry_ok_def end_of_def)
  from butlast_has_successor [OF good_group_sorted [OF assms(1)] assms(2)]
  obtain y where y: "y \<in> set g" "end_of x < start_of y" by blast
  with assms(1) have "entry_ok y" by (simp add: good_group_def list_all_iff)
  then have "start_of y \<le> 31" by (cases y) (auto simp: entry_ok_def start_of_def)
  with y(2) e0 show ?thesis by linarith
qed

lemma boundary_count:
  assumes "good_group g"
  shows "length (filter (is_boundary g) [0..62]) = length g - 1"
proof -
  let ?h = "\<lambda>x. end_of x * 2 + 2"
  have d: "distinct (map end_of (butlast g))"
  proof -
    have "sorted_wrt (<) (map end_of g)" using assms by (rule good_group_ends_sorted)
    then have "distinct (map end_of g)"
      using strict_sorted_iff by blast
    then show ?thesis
      by (simp add: distinct_butlast map_butlast)
  qed
  have dh: "distinct (map ?h (butlast g))"
    using d by (simp add: distinct_map inj_on_def)
  have set_eq: "{i. is_boundary g i} \<inter> set [0..62] = set (map ?h (butlast g))"
  proof (rule set_eqI)
    fix i
    show "i \<in> {i. is_boundary g i} \<inter> set [0..62] \<longleftrightarrow> i \<in> set (map ?h (butlast g))"
    proof
      assume "i \<in> {i. is_boundary g i} \<inter> set [0..62]"
      then show "i \<in> set (map ?h (butlast g))"
        by (force simp: is_boundary_def end_of_def)
    next
      assume "i \<in> set (map ?h (butlast g))"
      then obtain x where x: "x \<in> set (butlast g)" "i = ?h x" by auto
      from good_group_inner_ends [OF assms x(1)] x show "i \<in> {i. is_boundary g i} \<inter> set [0..62]"
        by (cases x) (auto simp: is_boundary_def end_of_def)
    qed
  qed
  have "length (filter (is_boundary g) [0..62]) = card ({i. is_boundary g i} \<inter> set [0..62])"
    by (simp add: distinct_length_filter)
  also have "\<dots> = card (set (map ?h (butlast g)))" by (simp only: set_eq)
  also have "\<dots> = length (map ?h (butlast g))" using dh by (rule distinct_card)
  finally show ?thesis by simp
qed







lemma render_row_lines:
  assumes "render_row row is_first = Inr ls"
  shows "\<exists>nl. name_loop blank_line row = Inr nl
           \<and> (if has_desc row
               then \<exists>dl. desc_loop blank_line row = Inr dl \<and> ls = [row_border row is_first, nl, dl]
               else ls = [row_border row is_first, nl])"
  using assms
  by (auto simp: render_row_def Let_def split: sum.splits if_splits)

lemma row_border_interior:
  "set (butlast (tl (row_border row is_first))) \<subseteq> {BOX_H, BOX_DH}"
  by (auto simp: row_border_def butlast_append)

lemma row_border_tee_count:
  assumes "good_group row"
  shows "length (filter (\<lambda>c. c = BOX_DH) (row_border row is_first)) = length row - 1"
proof -
  have corners: "BOX_DR \<noteq> BOX_DH" "BOX_VR \<noteq> BOX_DH" "BOX_DL \<noteq> BOX_DH" "BOX_VL \<noteq> BOX_DH"
    "BOX_H \<noteq> BOX_DH"
    by (simp_all add: BOX_DR_def BOX_VR_def BOX_DL_def BOX_VL_def BOX_DH_def BOX_H_def)
  have "filter (\<lambda>c. c = BOX_DH) (map (\<lambda>i. if is_boundary row i then BOX_DH else BOX_H) [0..62])
      = map (\<lambda>i. BOX_DH) (filter (is_boundary row) [0..62])"
    using corners(5) by (induction "[0..62::int]") (auto simp: filter_map comp_def intro: filter_cong)
  then show ?thesis
    using corners boundary_count [OF assms]
    by (simp add: row_border_def)
qed

section \<open>Claims about separators\<close>

text \<open>
  Claim C5, amended. For a row group as the packer emits it whose labels are no longer than
  their spans: in the label line a vertical separator stands at column \<open>end * 2 + 2\<close>, the
  character boundary immediately after the field, for every field whose end bit is less than
  31, the last field of the row included; every other interior column outside the label
  spans is blank, and inside a span only the centred label is written. In the top border
  every interior character is a horizontal bar or a junction, and there is one junction for
  every field but the last.
\<close>

theorem name_line_separators:
  assumes "good_group row" and "list_all label_fits row" and "render_row row is_first = Inr ls"
  shows "\<exists>nl rest. ls = row_border row is_first # nl # rest
    \<and> name_loop blank_line row = Inr nl
    \<and> (\<forall>x \<in> set row. end_of x < 31 \<longrightarrow> nl ! nat (char_end (end_of x)) = BOX_V)
    \<and> (\<forall>j. 1 \<le> j \<and> j \<le> 63
           \<and> (\<forall>x \<in> set row. \<not> (char_start (start_of x) \<le> int j \<and> int j < char_end (end_of x)))
           \<longrightarrow> nl ! j = (if \<exists>x \<in> set row. int j = char_end (end_of x) then BOX_V else SPACE))
    \<and> (\<forall>x \<in> set row. \<forall>j. char_start (start_of x) \<le> int j \<and> int j < char_end (end_of x)
           \<longrightarrow> nl ! j = name_cell x j SPACE)
    \<and> length (filter (\<lambda>c. c = BOX_DH) (row_border row is_first)) = length row - 1
    \<and> set (butlast (tl (row_border row is_first))) \<subseteq> {BOX_H, BOX_DH}"
proof -
  from assms(1) have ok: "list_all entry_ok row" and srt: "sorted_wrt (\<lambda>x y. end_of x < start_of y) row"
    by (simp_all add: good_group_def good_group_sorted)
  from render_row_lines [OF assms(3)] obtain nl rest where
    nl: "name_loop blank_line row = Inr nl" and ls: "ls = row_border row is_first # nl # rest"
    by (auto split: if_splits)
  have bounds: "\<And>x. x \<in> set row \<Longrightarrow> 0 \<le> start_of x \<and> start_of x \<le> end_of x \<and> end_of x \<le> 31"
    using ok by (auto simp: list_all_iff entry_ok_def start_of_def end_of_def)
  have cell: "nl ! j = name_cell x j (blank_line ! j)"
    if "x \<in> set row" "j < 65" "char_start (start_of x) \<le> int j" "int j \<le> char_end (end_of x)"
    for x j
  proof -
    from name_loop_cell [OF ok assms(2) srt length_blank_line that] obtain nl' where
      "name_loop blank_line row = Inr nl'" "nl' ! j = name_cell x j (blank_line ! j)" by blast
    with nl show ?thesis by simp
  qed
  have a: "\<forall>x \<in> set row. end_of x < 31 \<longrightarrow> nl ! nat (char_end (end_of x)) = BOX_V"
  proof (intro ballI impI)
    fix x assume x: "x \<in> set row" and e: "end_of x < 31"
    from bounds [OF x] e have c: "0 \<le> char_end (end_of x)" "char_end (end_of x) < 64"
      and cs: "char_start (start_of x) \<le> char_end (end_of x)"
      by (simp_all add: char_end_def char_start_def)
    from c have "nat (char_end (end_of x)) < 65" by linarith
    from cell [OF x this] c cs
    have "nl ! nat (char_end (end_of x)) = name_cell x (nat (char_end (end_of x)))
            (blank_line ! nat (char_end (end_of x)))"
      by simp
    with e c show "nl ! nat (char_end (end_of x)) = BOX_V"
      by (cases x) (simp add: name_cell_def end_of_def)
  qed
  have b: "\<forall>j. 1 \<le> j \<and> j \<le> 63
           \<and> (\<forall>x \<in> set row. \<not> (char_start (start_of x) \<le> int j \<and> int j < char_end (end_of x)))
           \<longrightarrow> nl ! j = (if \<exists>x \<in> set row. int j = char_end (end_of x) then BOX_V else SPACE)"
  proof (intro allI impI)
    fix j :: nat
    assume h: "1 \<le> j \<and> j \<le> 63
           \<and> (\<forall>x \<in> set row. \<not> (char_start (start_of x) \<le> int j \<and> int j < char_end (end_of x)))"
    show "nl ! j = (if \<exists>x \<in> set row. int j = char_end (end_of x) then BOX_V else SPACE)"
    proof (cases "\<exists>x \<in> set row. int j = char_end (end_of x)")
      case True
      then obtain x where x: "x \<in> set row" "int j = char_end (end_of x)" by blast
      with h have "end_of x < 31" by (simp add: char_end_def)
      with a x have "nl ! nat (char_end (end_of x)) = BOX_V" by blast
      moreover from x(2) have "nat (char_end (end_of x)) = j" by simp
      ultimately show ?thesis using True by simp
    next
      case False
      have "\<forall>x \<in> set row. \<not> name_writes x j"
      proof
        fix x assume x: "x \<in> set row"
        from x ok assms(2) have "entry_ok x" "label_fits x" by (simp_all add: list_all_iff)
        show "\<not> name_writes x j"
        proof
          assume w: "name_writes x j"
          obtain f s e where xe: "x = (f, s, e)" by (cases x) auto
          let ?lp = "left_pad (span_width s e) (name f)"
          from \<open>label_fits x\<close> xe have "int (length (name f)) \<le> span_width s e"
            by (simp add: label_fits_def)
          then have lp0: "0 \<le> ?lp" and lp1: "?lp + int (length (name f)) \<le> span_width s e"
            unfolding left_pad_def by linarith+
          have ce: "char_start s + span_width s e = char_end e" by (simp add: span_width_def)
          from w xe consider "int j = char_end e"
            | "char_start s + ?lp \<le> int j" "int j < char_start s + ?lp + int (length (name f))"
            by (auto simp: name_writes_def)
          then show False
          proof cases
            case 1
            with False x xe show False by (auto simp: end_of_def)
          next
            case 2
            with lp0 lp1 ce have "char_start s \<le> int j \<and> int j < char_end e" by linarith
            with h x xe show False by (auto simp: start_of_def end_of_def)
          qed
        qed
      qed
      from h have "j < 65" by simp
      from name_loop_frame [OF ok assms(2) length_blank_line this \<open>\<forall>x \<in> set row. \<not> name_writes x j\<close>]
      obtain nl' where "name_loop blank_line row = Inr nl'" "nl' ! j = blank_line ! j" by blast
      with nl have "nl ! j = blank_line ! j" by simp
      with h False show ?thesis by (simp add: blank_line_interior)
    qed
  qed
  have c: "\<forall>x \<in> set row. \<forall>j. char_start (start_of x) \<le> int j \<and> int j < char_end (end_of x)
           \<longrightarrow> nl ! j = name_cell x j SPACE"
  proof (intro ballI allI impI)
    fix x j assume x: "x \<in> set row"
      and j: "char_start (start_of x) \<le> int j \<and> int j < char_end (end_of x)"
    from bounds [OF x] j have j1: "1 \<le> j" "j \<le> 63"
      by (simp_all add: char_start_def char_end_def)
    from j1 have "j < 65" by simp
    from cell [OF x this] j have "nl ! j = name_cell x j (blank_line ! j)" by simp
    with j1 show "nl ! j = name_cell x j SPACE" by (simp add: blank_line_interior)
  qed
  note d = row_border_tee_count [OF assms(1), of is_first]
  note e = row_border_interior [of row is_first]
  show ?thesis
    by (rule exI [of _ nl], rule exI [of _ rest]) (intro conjI ls nl a b c d e)
qed

theorem name_line_separators_witness:
  "render_row [(mk_field ''Version'' 4, 0, 3), (mk_field ''Type'' 4, 4, 7),
               (mk_field ''Length'' 24, 8, 31)] True =
     Inr [row_border [(mk_field ''Version'' 4, 0, 3), (mk_field ''Type'' 4, 4, 7),
                      (mk_field ''Length'' 24, 8, 31)] True,
          [BOX_V] @ ascii ''Version'' @ [BOX_V] @ ascii '' Type  '' @ [BOX_V]
            @ replicate 20 SPACE @ ascii ''Length'' @ replicate 21 SPACE @ [BOX_V]]
   \<and> ([BOX_V] @ ascii ''Version'' @ [BOX_V] @ ascii '' Type  '' @ [BOX_V]
            @ replicate 20 SPACE @ ascii ''Length'' @ replicate 21 SPACE @ [BOX_V]) ! 8 = BOX_V
   \<and> length (filter (\<lambda>c. c = BOX_DH)
        (row_border [(mk_field ''Version'' 4, 0, 3), (mk_field ''Type'' 4, 4, 7),
                     (mk_field ''Length'' 24, 8, 31)] True)) = 2"
proof -
  define row where "row = [(mk_field ''Version'' 4, 0::int, 3::int), (mk_field ''Type'' 4, 4, 7),
               (mk_field ''Length'' 24, 8, 31)]"
  define b where "b = [BOX_DR] @ replicate 8 BOX_H @ [BOX_DH] @ replicate 7 BOX_H @ [BOX_DH]
              @ replicate 46 BOX_H @ [BOX_DL]"
  define n where "n = [BOX_V] @ ascii ''Version'' @ [BOX_V] @ ascii '' Type  '' @ [BOX_V]
            @ replicate 20 SPACE @ ascii ''Length'' @ replicate 21 SPACE @ [BOX_V]"
  have g: "good_group row"
    by (simp add: row_def good_group_def entry_ok_def)
  have f: "list_all label_fits row"
    by (simp add: row_def label_fits_def span_width_def char_start_def char_end_def ascii_def)
  have r: "render_row row True = Inr [b, n]"
    unfolding row_def b_def n_def by (rule render_row_example)
  have x: "(mk_field ''Version'' 4, 0, 3) \<in> set row"
    by (simp add: row_def)
  have len: "length row - 1 = 2"
    by (simp add: row_def)
  have "render_row row True = Inr [row_border row True, n] \<and> n ! 8 = BOX_V
      \<and> length (filter (\<lambda>c. c = BOX_DH) (row_border row True)) = 2"
    using name_line_separators [OF g f r]
  proof (elim exE conjE)
    fix nl rest
    assume ls: "[b, n] = row_border row True # nl # rest"
      and sep: "\<forall>x \<in> set row. end_of x < 31 \<longrightarrow> nl ! nat (char_end (end_of x)) = BOX_V"
      and cnt: "length (filter (\<lambda>c. c = BOX_DH) (row_border row True)) = length row - 1"
    from ls have bb: "b = row_border row True" and nn: "nl = n" by simp_all
    from sep x have "end_of (mk_field ''Version'' 4, 0, 3) < 31
        \<longrightarrow> nl ! nat (char_end (end_of (mk_field ''Version'' 4, 0, 3))) = BOX_V"
      by (rule bspec)
    then have "n ! 8 = BOX_V"
      unfolding nn by (simp add: end_of_def char_end_def)
    moreover from r bb have "render_row row True = Inr [row_border row True, n]" by simp
    moreover from cnt len have "length (filter (\<lambda>c. c = BOX_DH) (row_border row True)) = 2"
      by simp
    ultimately show ?thesis by blast
  qed
  then show ?thesis
    unfolding row_def n_def .
qed

text \<open>
  Claim C5 as stated fails in the label line: a single 8-bit field is the last field of its
  row, and the separator is still placed after it, at column 16.
\<close>

theorem separator_after_last_field_counterexample:
  "pack [mk_field ''A'' 8] = [RowGroup [(mk_field ''A'' 8, 0, 7)]]
   \<and> render_row [(mk_field ''A'' 8, 0, 7)] True =
       Inr [[BOX_DR] @ replicate 63 BOX_H @ [BOX_DL],
            [BOX_V] @ replicate 7 SPACE @ ascii ''A'' @ replicate 7 SPACE @ [BOX_V]
              @ replicate 47 SPACE @ [BOX_V]]
   \<and> ([BOX_V] @ replicate 7 SPACE @ ascii ''A'' @ replicate 7 SPACE @ [BOX_V]
              @ replicate 47 SPACE @ [BOX_V]) ! 16 = BOX_V"
proof -
  have p: "pack [mk_field ''A'' 8] = [RowGroup [(mk_field ''A'' 8, 0, 7)]]"
    by (simp add: pack_def pack_step_def pending_blocks_def align32_def)
  have r: "render_row [(mk_field ''A'' 8, 0, 7)] True =
       Inr [[BOX_DR] @ replicate 63 BOX_H @ [BOX_DL],
            [BOX_V] @ replicate 7 SPACE @ ascii ''A'' @ replicate 7 SPACE @ [BOX_V]
              @ replicate 47 SPACE @ [BOX_V]]"
    by (simp add: render_eval)
  have n: "([BOX_V] @ replicate 7 SPACE @ ascii ''A'' @ replicate 7 SPACE @ [BOX_V]
              @ replicate 47 SPACE @ [BOX_V]) ! 16 = BOX_V"
    by (simp add: nth_append ascii_def)
  from p r n show ?thesis by blast
qed



end
